theory Spec2Isabelle
  imports Main "HOL-Library.Word"
begin

unbundle bit_operations_syntax

section \<open>Bytes, Go strings and little-endian scalars\<close>

text \<open>
  A Go \<^verbatim>\<open>byte\<close> is an 8-bit word; a Go \<^verbatim>\<open>string\<close> and a \<^verbatim>\<open>[]byte\<close> are both
  sequences of bytes, and the conversions \<^verbatim>\<open>string(b)\<close> and \<^verbatim>\<open>[]byte(s)\<close> keep the
  bytes as they are.  Go's \<^verbatim>\<open>uint\<close> is taken to be 64 bits wide, so a value read from
  a 32-bit field never overflows when it is doubled; such values are natural numbers
  here, and the truncation \<^verbatim>\<open>uint32(x)\<close> is written out as \<open>mod 2 ^ 32\<close>.
\<close>

type_synonym byte = "8 word"

type_synonym gostring = "byte list"

definition bytes_of :: "string \<Rightarrow> gostring" where
  "bytes_of s = map of_char s"

definition CSFFileIdentifier :: gostring where
  "CSFFileIdentifier = bytes_of '' FSC''"

definition LabelIdentifier :: gostring where
  "LabelIdentifier = bytes_of '' LBL''"

definition ValueIdentifier :: gostring where
  "ValueIdentifier = bytes_of '' RTS''"

definition ValueWithExtraIdentifier :: gostring where
  "ValueWithExtraIdentifier = bytes_of ''WRTS''"

text \<open>\<^verbatim>\<open>binary.LittleEndian.PutUint32(dword, uint32(v))\<close> and \<^verbatim>\<open>binary.LittleEndian.Uint32\<close>.\<close>

definition PutUint32 :: "nat \<Rightarrow> byte list" where
  "PutUint32 v = [of_nat v, of_nat (v div 256), of_nat (v div 65536), of_nat (v div 16777216)]"

definition Uint32 :: "byte list \<Rightarrow> nat" where
  "Uint32 b = unat (b ! 0) + 256 * unat (b ! 1) + 65536 * unat (b ! 2) + 16777216 * unat (b ! 3)"

section \<open>Data model (types.go)\<close>

record Label =
  lOffset :: nat
  StringPairs :: nat
  lValue :: "byte list"

record Value =
  vOffset :: nat
  HaveExtra :: bool
  vValue :: "byte list"
  ExtraValue :: "byte list"

record LabelValue =
  lvLabel :: Label
  lvValue :: Value

text \<open>The zero value of \<^verbatim>\<open>LabelValue\<close>, which a Go map returns for a missing key.\<close>

definition zero_LabelValue :: LabelValue where
  "zero_LabelValue =
     \<lparr>lvLabel = \<lparr>lOffset = 0, StringPairs = 0, lValue = []\<rparr>,
      lvValue = \<lparr>vOffset = 0, HaveExtra = False, vValue = [], ExtraValue = []\<rparr>\<rparr>"

definition Label_ValueString :: "Label \<Rightarrow> gostring" where
  "Label_ValueString l = lValue l"

definition Label_Bytes :: "Label \<Rightarrow> byte list" where
  "Label_Bytes l = LabelIdentifier @ PutUint32 1 @ PutUint32 (length (lValue l)) @ lValue l"

definition Label_Write :: "Label \<Rightarrow> gostring \<Rightarrow> Label" where
  "Label_Write l s = l\<lparr>lValue := s\<rparr>"

definition Value_Bytes :: "Value \<Rightarrow> byte list" where
  "Value_Bytes v =
     (if HaveExtra v then ValueWithExtraIdentifier else ValueIdentifier)
     @ PutUint32 (length (vValue v) div 2) @ vValue v
     @ (if HaveExtra v then PutUint32 (length (ExtraValue v)) @ ExtraValue v else [])"

definition LabelValue_Bytes :: "LabelValue \<Rightarrow> byte list" where
  "LabelValue_Bytes lv = Label_Bytes (lvLabel lv) @ Value_Bytes (lvValue lv)"

section \<open>Text conversions (encoding.go and the Go runtime)\<close>

text \<open>
  \<^verbatim>\<open>[]rune(s)\<close> decodes UTF-8 as \<^verbatim>\<open>utf8.DecodeRuneInString\<close> does: a byte that does
  not start a well-formed sequence yields U+FFFD and is skipped alone.  Runes and
  UTF-16 code units are natural numbers; masks are written as \<open>mod\<close>.
\<close>

definition utf8_size :: "byte \<Rightarrow> nat" where
  "utf8_size b =
     (if b < 0x80 then 1
      else if b < 0xC2 then 0
      else if b < 0xE0 then 2
      else if b < 0xF0 then 3
      else if b < 0xF5 then 4
      else 0)"

definition utf8_accept :: "byte \<Rightarrow> byte \<Rightarrow> bool" where
  "utf8_accept b0 b1 =
     (if b0 = 0xE0 then 0xA0 \<le> b1 \<and> b1 \<le> 0xBF
      else if b0 = 0xED then 0x80 \<le> b1 \<and> b1 \<le> 0x9F
      else if b0 = 0xF0 then 0x90 \<le> b1 \<and> b1 \<le> 0xBF
      else if b0 = 0xF4 then 0x80 \<le> b1 \<and> b1 \<le> 0x8F
      else 0x80 \<le> b1 \<and> b1 \<le> 0xBF)"

definition utf8_cont :: "byte \<Rightarrow> bool" where
  "utf8_cont b = (0x80 \<le> b \<and> b \<le> 0xBF)"

definition RuneError :: nat where
  "RuneError = 0xFFFD"

fun DecodeRuneInString :: "gostring \<Rightarrow> nat \<times> nat" where
  "DecodeRuneInString [] = (RuneError, 0)"
| "DecodeRuneInString (s0 # rest) =
     (let sz = utf8_size s0 in
      if sz = 1 then (unat s0, 1)
      else if sz = 0 then (RuneError, 1)
      else if length rest + 1 < sz then (RuneError, 1)
      else
        (let s1 = rest ! 0 in
         if \<not> utf8_accept s0 s1 then (RuneError, 1)
         else if sz \<le> 2 then (unat s0 mod 32 * 64 + unat s1 mod 64, 2)
         else
           (let s2 = rest ! 1 in
            if \<not> utf8_cont s2 then (RuneError, 1)
            else if sz \<le> 3
            then (unat s0 mod 16 * 4096 + unat s1 mod 64 * 64 + unat s2 mod 64, 3)
            else
              (let s3 = rest ! 2 in
               if \<not> utf8_cont s3 then (RuneError, 1)
               else (unat s0 mod 8 * 262144 + unat s1 mod 64 * 4096
                     + unat s2 mod 64 * 64 + unat s3 mod 64, 4)))))"

fun runes_of_string :: "gostring \<Rightarrow> nat list" where
  "runes_of_string [] = []"
| "runes_of_string (s0 # rest) =
     fst (DecodeRuneInString (s0 # rest))
     # runes_of_string (drop (snd (DecodeRuneInString (s0 # rest)) - 1) rest)"

text \<open>\<^verbatim>\<open>string(runes)\<close>: a surrogate or a value above U+10FFFF is written as U+FFFD.\<close>

definition encoderune :: "nat \<Rightarrow> gostring" where
  "encoderune r =
     (if r \<le> 0x7F then [of_nat r]
      else if r \<le> 0x7FF then [of_nat (0xC0 + r div 64), of_nat (0x80 + r mod 64)]
      else if 0x10FFFF < r \<or> (0xD800 \<le> r \<and> r \<le> 0xDFFF) then [0xEF, 0xBF, 0xBD]
      else if r \<le> 0xFFFF
      then [of_nat (0xE0 + r div 4096), of_nat (0x80 + r div 64 mod 64), of_nat (0x80 + r mod 64)]
      else [of_nat (0xF0 + r div 262144), of_nat (0x80 + r div 4096 mod 64),
            of_nat (0x80 + r div 64 mod 64), of_nat (0x80 + r mod 64)])"

definition string_of_runes :: "nat list \<Rightarrow> gostring" where
  "string_of_runes rs = concat (map encoderune rs)"

text \<open>\<^verbatim>\<open>utf16.Encode\<close> and \<^verbatim>\<open>utf16.Decode\<close> of the Go library.\<close>

definition utf16_EncodeRune :: "nat \<Rightarrow> nat list" where
  "utf16_EncodeRune v =
     (if v < 0xD800 \<or> (0xE000 \<le> v \<and> v < 0x10000) then [v]
      else if 0x10000 \<le> v \<and> v \<le> 0x10FFFF
      then [0xD800 + (v - 0x10000) div 1024 mod 1024, 0xDC00 + (v - 0x10000) mod 1024]
      else [RuneError])"

definition utf16_Encode :: "nat list \<Rightarrow> nat list" where
  "utf16_Encode rs = concat (map utf16_EncodeRune rs)"

fun utf16_Decode :: "nat list \<Rightarrow> nat list" where
  "utf16_Decode [] = []"
| "utf16_Decode [r] = [if r < 0xD800 \<or> 0xE000 \<le> r then r else RuneError]"
| "utf16_Decode (r # r2 # rs) =
     (if r < 0xD800 \<or> 0xE000 \<le> r then r # utf16_Decode (r2 # rs)
      else if 0xD800 \<le> r \<and> r < 0xDC00 \<and> 0xDC00 \<le> r2 \<and> r2 < 0xE000
      then ((r - 0xD800) * 1024 + (r2 - 0xDC00) + 0x10000) # utf16_Decode rs
      else RuneError # utf16_Decode (r2 # rs))"

text \<open>\<^verbatim>\<open>binary.Read\<close> of little-endian 16-bit units from an even number of bytes.\<close>

fun units_of_bytes :: "byte list \<Rightarrow> nat list" where
  "units_of_bytes (b0 # b1 # bs) = (unat b0 + 256 * unat b1) # units_of_bytes bs"
| "units_of_bytes bs = []"

datatype utf16_error = NotValidUTF16 nat

definition DecodeUTF16 :: "byte list \<Rightarrow> gostring \<times> utf16_error option" where
  "DecodeUTF16 b =
     (if length b = 0 then ([], None)
      else if length b mod 2 \<noteq> 0 then ([], Some (NotValidUTF16 (length b)))
      else (string_of_runes (utf16_Decode (units_of_bytes b)), None))"

definition EncodeUTF16 :: "gostring \<Rightarrow> byte list" where
  "EncodeUTF16 s =
     concat (map (\<lambda>r. [of_nat r, of_nat (r div 256)]) (utf16_Encode (runes_of_string s)))"

section \<open>Text of labels and values (types.go)\<close>

definition complement :: "byte list \<Rightarrow> byte list" where
  "complement b = map (\<lambda>x. NOT x) b"

definition ValueString :: "Value \<Rightarrow> gostring" where
  "ValueString v = fst (DecodeUTF16 (complement (vValue v)))"

definition ExtraValueString :: "Value \<Rightarrow> gostring" where
  "ExtraValueString v = (if \<not> HaveExtra v then [] else ExtraValue v)"

definition Value_Write :: "Value \<Rightarrow> gostring \<Rightarrow> Value" where
  "Value_Write v s = v\<lparr>vValue := complement (EncodeUTF16 s)\<rparr>"

definition WriteExtra :: "Value \<Rightarrow> gostring \<Rightarrow> Value" where
  "WriteExtra v s = v\<lparr>HaveExtra := True, ExtraValue := s\<rparr>"

definition ClearExtra :: "Value \<Rightarrow> Value" where
  "ClearExtra v = v\<lparr>HaveExtra := False, ExtraValue := []\<rparr>"

text \<open>The variadic \<^verbatim>\<open>extra ...string\<close> is the list of the strings passed.\<close>

definition NewLabelValueWithOffset ::
  "gostring \<Rightarrow> nat \<Rightarrow> gostring \<Rightarrow> nat \<Rightarrow> gostring list \<Rightarrow> LabelValue" where
  "NewLabelValueWithOffset label labelOffset val valueOffset extra =
     (let l = Label_Write \<lparr>lOffset = labelOffset, StringPairs = 1, lValue = []\<rparr> label;
          v = Value_Write \<lparr>vOffset = valueOffset, HaveExtra = False, vValue = [],
                           ExtraValue = []\<rparr> val;
          v' = (if length extra > 0 then WriteExtra v (extra ! 0) else v)
      in \<lparr>lvLabel = l, lvValue = v'\<rparr>)"

definition NewLabelValue :: "gostring \<Rightarrow> gostring \<Rightarrow> gostring list \<Rightarrow> LabelValue" where
  "NewLabelValue label val extra = NewLabelValueWithOffset label 0 val 0 extra"

section \<open>Slices of strings over a store of backing arrays\<close>

text \<open>
  \<^verbatim>\<open>Order\<close> is a Go slice: a view (start, length, capacity) into a backing array that
  other slices may share.  \<^verbatim>\<open>append\<close> writes into the backing array when the capacity
  suffices and moves to a fresh array otherwise, so the arrays are kept in an explicit
  store, addressed by their index.  The capacity of a fresh array is chosen by the Go
  runtime; it is a parameter of the model, as is the Unicode case table.
\<close>

record slice =
  s_ptr :: nat
  s_off :: nat
  s_len :: nat
  s_cap :: nat

type_synonym heap = "gostring list list"

record runtime =
  unicodeToUpper :: "gostring \<Rightarrow> gostring"
  growCap :: "nat \<Rightarrow> nat \<Rightarrow> nat"

definition nil_slice :: slice where
  "nil_slice = \<lparr>s_ptr = 0, s_off = 0, s_len = 0, s_cap = 0\<rparr>"

definition slice_elems :: "heap \<Rightarrow> slice \<Rightarrow> gostring list" where
  "slice_elems h s = take (s_len s) (drop (s_off s) (h ! s_ptr s))"

text \<open>The slice expression \<^verbatim>\<open>s[a:b]\<close>; every use in the source has \<open>a \<le> b \<le> len(s)\<close>.\<close>

definition reslice :: "slice \<Rightarrow> nat \<Rightarrow> nat \<Rightarrow> slice" where
  "reslice s a b = s\<lparr>s_off := s_off s + a, s_len := b - a, s_cap := s_cap s - a\<rparr>"

definition write_at :: "'a list \<Rightarrow> nat \<Rightarrow> 'a list \<Rightarrow> 'a list" where
  "write_at a i xs = take i a @ xs @ drop (i + length xs) a"

text \<open>
  \<^verbatim>\<open>append(s, xs...)\<close>: the elements \<open>xs\<close> have been read from their source before
  anything is written (the copy is a \<^verbatim>\<open>memmove\<close>).
\<close>

definition go_append :: "runtime \<Rightarrow> heap \<Rightarrow> slice \<Rightarrow> gostring list \<Rightarrow> heap \<times> slice" where
  "go_append rt h s xs =
     (let n = s_len s + length xs in
      if n \<le> s_cap s
      then (h[s_ptr s := write_at (h ! s_ptr s) (s_off s + s_len s) xs], s\<lparr>s_len := n\<rparr>)
      else let c = max n (growCap rt (s_cap s) n) in
           (h @ [slice_elems h s @ xs @ replicate (c - n) []],
            \<lparr>s_ptr = length h, s_off = 0, s_len = n, s_cap = c\<rparr>))"

section \<open>The table handle and the byte source (csfutil.go)\<close>

datatype error =
    EOF
  | NotEnoughData nat nat
  | NotADword
  | NotValidIdentifier "gostring list" gostring
  | Wrapped string error nat
  | TooManyStrings

text \<open>\<^verbatim>\<open>errors.Is(err, io.EOF)\<close>: only \<^verbatim>\<open>%w\<close> wraps an error.\<close>

fun errors_Is_EOF :: "error \<Rightarrow> bool" where
  "errors_Is_EOF EOF = True"
| "errors_Is_EOF (Wrapped msg err at) = errors_Is_EOF err"
| "errors_Is_EOF _ = False"

record CSFUtil =
  dword :: "byte list"
  fdata :: "byte list"
  fpos :: nat
  Version :: nat
  NumLabels :: nat
  NumStrings :: nat
  Unused :: nat
  Language :: nat
  Values :: "gostring \<rightharpoonup> LabelValue"
  Categories :: "gostring \<rightharpoonup> gostring list"
  Order :: slice
  mem :: heap

definition Order_list :: "CSFUtil \<Rightarrow> gostring list" where
  "Order_list r = slice_elems (mem r) (Order r)"

text \<open>
  \<^verbatim>\<open>r.file.Read(b)\<close> on a regular file, with \<open>n = len(b)\<close>: nothing is read and no
  error is returned when \<open>n = 0\<close>; \<^verbatim>\<open>io.EOF\<close> when no byte is left; otherwise the
  bytes that are there, up to \<open>n\<close>.
\<close>

definition file_Read :: "CSFUtil \<Rightarrow> nat \<Rightarrow> (error + byte list) \<times> CSFUtil" where
  "file_Read r n =
     (if n = 0 then (Inr [], r)
      else if length (fdata r) \<le> fpos r then (Inl EOF, r)
      else let b = take n (drop (fpos r) (fdata r)) in (Inr b, r\<lparr>fpos := fpos r + length b\<rparr>))"

definition pos :: "CSFUtil \<Rightarrow> nat" where
  "pos r = fpos r"

definition read :: "CSFUtil \<Rightarrow> nat \<Rightarrow> (error + byte list) \<times> CSFUtil" where
  "read r n =
     (case file_Read r n of
        (Inl err, r') \<Rightarrow> (Inl err, r')
      | (Inr b, r') \<Rightarrow>
          if length b \<noteq> n then (Inl (NotEnoughData n (length b)), r') else (Inr b, r'))"

definition readDWORD :: "CSFUtil \<Rightarrow> (error + byte list) \<times> CSFUtil" where
  "readDWORD r =
     (case file_Read r (length (dword r)) of
        (Inl err, r') \<Rightarrow> (Inl err, r')
      | (Inr b, r') \<Rightarrow>
          let r'' = r'\<lparr>dword := b @ drop (length b) (dword r')\<rparr> in
          if length b \<noteq> 4 then (Inl NotADword, r'') else (Inr (dword r''), r''))"

definition readUInt :: "CSFUtil \<Rightarrow> (error + nat) \<times> CSFUtil" where
  "readUInt r =
     (case readDWORD r of
        (Inl err, r') \<Rightarrow> (Inl err, r')
      | (Inr b, r') \<Rightarrow> (Inr (Uint32 (dword r')), r'))"

definition checkIdentifier :: "CSFUtil \<Rightarrow> gostring list \<Rightarrow> error option \<times> CSFUtil" where
  "checkIdentifier r ids =
     (case readDWORD r of
        (Inl err, r') \<Rightarrow> (Some err, r')
      | (Inr b, r') \<Rightarrow>
          if dword r' \<in> set ids then (None, r')
          else (Some (NotValidIdentifier ids (dword r')), r'))"

definition readHeader :: "CSFUtil \<Rightarrow> error option \<times> CSFUtil" where
  "readHeader r =
     (case checkIdentifier r [CSFFileIdentifier] of
        (Some err, r0) \<Rightarrow> (Some (Wrapped ''not a valid CSF file'' err (pos r0)), r0)
      | (None, r0) \<Rightarrow>
     (case readUInt r0 of
        (Inl err, r1) \<Rightarrow> (Some err, r1)
      | (Inr i1, r1) \<Rightarrow>
     (case readUInt (r1\<lparr>Version := i1\<rparr>) of
        (Inl err, r2) \<Rightarrow> (Some err, r2)
      | (Inr i2, r2) \<Rightarrow>
     (case readUInt (r2\<lparr>NumLabels := i2\<rparr>) of
        (Inl err, r3) \<Rightarrow> (Some err, r3)
      | (Inr i3, r3) \<Rightarrow>
     (case readUInt (r3\<lparr>NumStrings := i3\<rparr>) of
        (Inl err, r4) \<Rightarrow> (Some err, r4)
      | (Inr i4, r4) \<Rightarrow>
     (case readUInt (r4\<lparr>Unused := i4\<rparr>) of
        (Inl err, r5) \<Rightarrow> (Some err, r5)
      | (Inr i5, r5) \<Rightarrow> (None, r5\<lparr>Language := i5\<rparr>)))))))"

definition readLabel :: "CSFUtil \<Rightarrow> (error + Label) \<times> CSFUtil" where
  "readLabel r =
     (let offset = pos r in
      case checkIdentifier r [LabelIdentifier] of
        (Some err, r0) \<Rightarrow> (Inl (Wrapped ''not a valid label start'' err offset), r0)
      | (None, r0) \<Rightarrow>
     (case readUInt r0 of
        (Inl err, r1) \<Rightarrow> (Inl err, r1)
      | (Inr pairs, r1) \<Rightarrow>
     (case readUInt r1 of
        (Inl err, r2) \<Rightarrow> (Inl err, r2)
      | (Inr len, r2) \<Rightarrow>
     (case read r2 len of
        (Inl err, r3) \<Rightarrow> (Inl err, r3)
      | (Inr val, r3) \<Rightarrow>
          (Inr \<lparr>lOffset = offset, StringPairs = pairs, lValue = val\<rparr>, r3)))))"

text \<open>
  In \<^verbatim>\<open>readValue\<close> the error of the \<^verbatim>\<open>readUInt\<close> that fetches the length of the extra
  value is overwritten before it is looked at; \<^verbatim>\<open>readUInt\<close> returns 0 with its error.
\<close>

definition readValue :: "CSFUtil \<Rightarrow> (error + Value) \<times> CSFUtil" where
  "readValue r =
     (let offset = pos r in
      case checkIdentifier r [ValueIdentifier, ValueWithExtraIdentifier] of
        (Some err, r0) \<Rightarrow> (Inl (Wrapped ''not a valid value start'' err offset), r0)
      | (None, r0) \<Rightarrow>
          let hasExtra = (dword r0 = bytes_of ''WRTS'') in
          case readUInt r0 of
            (Inl err, r1) \<Rightarrow> (Inl err, r1)
          | (Inr len, r1) \<Rightarrow>
              (case read r1 (len * 2) of
                 (Inl err, r2) \<Rightarrow> (Inl err, r2)
               | (Inr val, r2) \<Rightarrow>
                   if hasExtra then
                     (let (extraLength, r3) =
                            (case readUInt r2 of
                               (Inl err, r3) \<Rightarrow> (0, r3)
                             | (Inr n, r3) \<Rightarrow> (n, r3))
                      in case read r3 extraLength of
                           (Inl err, r4) \<Rightarrow> (Inl err, r4)
                         | (Inr extraVal, r4) \<Rightarrow>
                             (Inr \<lparr>vOffset = offset, HaveExtra = hasExtra, vValue = val,
                                   ExtraValue = extraVal\<rparr>, r4))
                   else (Inr \<lparr>vOffset = offset, HaveExtra = hasExtra, vValue = val,
                              ExtraValue = []\<rparr>, r2)))"

section \<open>Decoding the entries\<close>

text \<open>
  \<^verbatim>\<open>strings.ToUpper\<close>: a string of ASCII bytes has its letters \<open>a\<close> to \<open>z\<close> moved to
  upper case byte by byte; any other string goes through the Unicode tables of the Go
  library, which are a parameter here.
\<close>

definition ascii_upper :: "byte \<Rightarrow> byte" where
  "ascii_upper c = (if 0x61 \<le> c \<and> c \<le> 0x7A then c - 0x20 else c)"

definition ToUpper :: "runtime \<Rightarrow> gostring \<Rightarrow> gostring" where
  "ToUpper rt s =
     (if list_all (\<lambda>c. c < 0x80) s then map ascii_upper s else unicodeToUpper rt s)"

text \<open>The byte \<open>0x3A\<close> is the colon.\<close>

definition strings_Contains_colon :: "gostring \<Rightarrow> bool" where
  "strings_Contains_colon s = (0x3A \<in> set s)"

definition strings_Index_colon :: "gostring \<Rightarrow> nat" where
  "strings_Index_colon s = length (takeWhile (\<lambda>c. c \<noteq> 0x3A) s)"

record locals =
  mapLabelValue :: "gostring \<rightharpoonup> LabelValue"
  mapCate :: "gostring \<rightharpoonup> gostring list"
  listOrder :: slice
  lmem :: heap
  counter :: nat

text \<open>
  The body of the loop of \<^verbatim>\<open>readContent\<close> from \<^verbatim>\<open>labelName := label.ValueString()\<close>
  to \<^verbatim>\<open>mapLabelValue[upperLabelName] = lv\<close>.  A category seen for the first time is
  bound to the empty list; only later labels of the category are appended to it.
\<close>

definition readContent_store :: "runtime \<Rightarrow> locals \<Rightarrow> Label \<Rightarrow> Value \<Rightarrow> locals" where
  "readContent_store rt l label val =
     (let labelName = Label_ValueString label;
          upperLabelName = ToUpper rt labelName;
          l1 = (if mapLabelValue l upperLabelName = None then
                  (let l0 =
                        (if strings_Contains_colon upperLabelName then
                           (let categoryName = take (strings_Index_colon upperLabelName) upperLabelName in
                            case mapCate l categoryName of
                              Some list \<Rightarrow> l\<lparr>mapCate := (mapCate l)(categoryName \<mapsto> list @ [labelName])\<rparr>
                            | None \<Rightarrow> l\<lparr>mapCate := (mapCate l)(categoryName \<mapsto> [])\<rparr>)
                         else
                           (case mapCate l [] of
                              Some list \<Rightarrow> l\<lparr>mapCate := (mapCate l)([] \<mapsto> list @ [labelName])\<rparr>
                            | None \<Rightarrow> l\<lparr>mapCate := (mapCate l)([] \<mapsto> [])\<rparr>));
                       (h, lo) = go_append rt (lmem l0) (listOrder l0) [upperLabelName]
                   in l0\<lparr>listOrder := lo, lmem := h\<rparr>)
                else l)
      in l1\<lparr>mapLabelValue := (mapLabelValue l1)(upperLabelName \<mapsto> \<lparr>lvLabel = label, lvValue = val\<rparr>)\<rparr>)"

function readContent_loop :: "runtime \<Rightarrow> CSFUtil \<Rightarrow> locals \<Rightarrow> (error + locals) \<times> CSFUtil" where
  "readContent_loop rt r l =
     (case readLabel r of
        (Inl err, r1) \<Rightarrow> if errors_Is_EOF err then (Inr l, r1) else (Inl err, r1)
      | (Inr label, r1) \<Rightarrow>
          (case readValue r1 of
             (Inl err, r2) \<Rightarrow> if errors_Is_EOF err then (Inr l, r2) else (Inl err, r2)
           | (Inr val, r2) \<Rightarrow>
               let l' = (readContent_store rt l label val)\<lparr>counter := counter l + 1\<rparr> in
               if counter l' > 20000 then (Inl TooManyStrings, r2)
               else readContent_loop rt r2 l'))"
  by pat_completeness auto

termination
  by (relation "measure (\<lambda>(rt, r, l). 20001 - counter l)") auto

declare readContent_loop.simps [simp del]

definition readContent :: "runtime \<Rightarrow> CSFUtil \<Rightarrow> error option \<times> CSFUtil" where
  "readContent rt r =
     (case readContent_loop rt r
             \<lparr>mapLabelValue = Map.empty, mapCate = Map.empty, listOrder = nil_slice,
              lmem = mem r, counter = 0\<rparr> of
        (Inl err, r') \<Rightarrow> (Some err, r')
      | (Inr l, r') \<Rightarrow>
          (None, r'\<lparr>Values := mapLabelValue l, Categories := mapCate l,
                     Order := listOrder l, mem := lmem l\<rparr>))"

text \<open>
  \<^verbatim>\<open>openAndParse\<close> on a file whose content is \<open>contents\<close>; \<^verbatim>\<open>Open\<close> starts from the
  zero value of \<^verbatim>\<open>CSFUtil\<close> and returns the handle together with the error.
\<close>

definition openAndParse :: "runtime \<Rightarrow> CSFUtil \<Rightarrow> byte list \<Rightarrow> error option \<times> CSFUtil" where
  "openAndParse rt r contents =
     (let r0 = r\<lparr>fdata := contents, fpos := 0, dword := replicate 4 0\<rparr> in
      case readHeader r0 of
        (Some err, r1) \<Rightarrow> (Some err, r1)
      | (None, r1) \<Rightarrow> readContent rt r1)"

definition zero_CSFUtil :: CSFUtil where
  "zero_CSFUtil =
     \<lparr>dword = [], fdata = [], fpos = 0, Version = 0, NumLabels = 0, NumStrings = 0,
      Unused = 0, Language = 0, Values = Map.empty, Categories = Map.empty,
      Order = nil_slice, mem = []\<rparr>"

definition Open :: "runtime \<Rightarrow> byte list \<Rightarrow> CSFUtil \<times> error option" where
  "Open rt contents = (case openAndParse rt zero_CSFUtil contents of (err, r) \<Rightarrow> (r, err))"

definition New :: "nat \<Rightarrow> nat \<Rightarrow> nat \<Rightarrow> CSFUtil" where
  "New version unused language =
     zero_CSFUtil\<lparr>Version := version, NumLabels := 0, NumStrings := 0, Unused := unused,
                  Language := language, Values := Map.empty, Categories := Map.empty,
                  Order := nil_slice\<rparr>"

section \<open>Writing, removing, saving\<close>

text \<open>\<^verbatim>\<open>for i, s := range xs { if s == t { pos = i } }\<close>, started at index \<open>i\<close>.\<close>

fun range_set_pos :: "gostring list \<Rightarrow> gostring \<Rightarrow> nat \<Rightarrow> nat \<Rightarrow> nat" where
  "range_set_pos [] t i p = p"
| "range_set_pos (s # ss) t i p = range_set_pos ss t (i + 1) (if s = t then i else p)"

text \<open>The index at which \<^verbatim>\<open>for i, s := range xs { if s == t { ...; break } }\<close> stops.\<close>

fun range_first :: "gostring list \<Rightarrow> gostring \<Rightarrow> nat \<Rightarrow> nat option" where
  "range_first [] t i = None"
| "range_first (s # ss) t i = (if s = t then Some i else range_first ss t (i + 1))"

definition WriteLabelValueBefore ::
  "runtime \<Rightarrow> CSFUtil \<Rightarrow> LabelValue \<Rightarrow> bool \<Rightarrow> gostring \<Rightarrow> CSFUtil" where
  "WriteLabelValueBefore rt r lv overwriteLabel successor =
     (let successorUpper = ToUpper rt successor;
          labelNameUpper = ToUpper rt (Label_ValueString (lvLabel lv));
          (lv1, r1) =
            (case Values r labelNameUpper of
               Some old \<Rightarrow>
                 (if \<not> overwriteLabel
                  then lv\<lparr>lvLabel := Label_Write (lvLabel lv) (Label_ValueString (lvLabel old))\<rparr>
                  else lv, r)
             | None \<Rightarrow>
                 (case Values r successorUpper of
                    Some succ \<Rightarrow>
                      (let l = s_len (Order r);
                           p = range_set_pos (Order_list r) successorUpper 0 l;
                           (h1, inner) = go_append rt (mem r) (reslice (Order r) 0 p) [labelNameUpper];
                           (h2, outer) = go_append rt h1 inner (slice_elems h1 (reslice (Order r) p l))
                       in (lv, r\<lparr>Order := outer, mem := h2\<rparr>))
                  | None \<Rightarrow>
                      (let (h, lo) = go_append rt (mem r) (Order r) [labelNameUpper]
                       in (lv, r\<lparr>Order := lo, mem := h\<rparr>))));
          r2 = r1\<lparr>Values := (Values r1)(labelNameUpper \<mapsto> lv1)\<rparr>
      in r2\<lparr>NumLabels := card (dom (Values r2)), NumStrings := card (dom (Values r2))\<rparr>)"

definition WriteLabelValue :: "runtime \<Rightarrow> CSFUtil \<Rightarrow> LabelValue \<Rightarrow> bool \<Rightarrow> CSFUtil" where
  "WriteLabelValue rt r lv overwriteLabel = WriteLabelValueBefore rt r lv overwriteLabel []"

definition RemoveLabelValue :: "runtime \<Rightarrow> CSFUtil \<Rightarrow> gostring \<Rightarrow> CSFUtil" where
  "RemoveLabelValue rt r name =
     (if s_len (Order r) = 0 then r
      else
        (let upperName = ToUpper rt name;
             r1 = r\<lparr>Values := (Values r)(upperName := None)\<rparr>;
             r2 = (case range_first (Order_list r1) upperName 0 of
                     None \<Rightarrow> r1
                   | Some i \<Rightarrow>
                       if s_len (Order r1) > 1 then
                         (let (h, lo) = go_append rt (mem r1) (reslice (Order r1) 0 i)
                                          (slice_elems (mem r1)
                                             (reslice (Order r1) (i + 1) (s_len (Order r1))))
                          in r1\<lparr>Order := lo, mem := h\<rparr>)
                       else r1\<lparr>Order := nil_slice\<rparr>)
         in r2\<lparr>NumLabels := card (dom (Values r2)), NumStrings := card (dom (Values r2))\<rparr>))"

text \<open>The bytes that \<^verbatim>\<open>Save\<close> writes to the temporary file and renames into place.\<close>

definition Save :: "CSFUtil \<Rightarrow> byte list" where
  "Save r =
     CSFFileIdentifier @ PutUint32 (Version r) @ PutUint32 (NumLabels r)
     @ PutUint32 (NumStrings r) @ PutUint32 (Unused r) @ PutUint32 (Language r)
     @ concat (map (\<lambda>s. LabelValue_Bytes
                          (case Values r s of None \<Rightarrow> zero_LabelValue | Some lv \<Rightarrow> lv))
                 (Order_list r))"

text \<open>
  A runtime for the examples: strings of ASCII bytes never reach the Unicode tables, and
  a fresh array gets twice the capacity of the one it replaces.
\<close>

definition example_runtime :: runtime where
  "example_runtime = \<lparr>unicodeToUpper = (\<lambda>s. s), growCap = (\<lambda>old n. 2 * old)\<rparr>"

section \<open>Example tables\<close>

definition ex_A :: LabelValue where
  "ex_A = NewLabelValue (bytes_of ''TXT:A'') (bytes_of ''a'') []"

definition ex_B :: LabelValue where
  "ex_B = NewLabelValue (bytes_of ''TXT:B'') (bytes_of ''b'') []"

definition ex_C :: LabelValue where
  "ex_C = NewLabelValue (bytes_of ''TXT:C'') (bytes_of ''c'') []"

definition ex_AB :: CSFUtil where
  "ex_AB = WriteLabelValue example_runtime
             (WriteLabelValue example_runtime (New 3 0 0) ex_A False) ex_B False"

definition ex_greeting :: CSFUtil where
  "ex_greeting = WriteLabelValue example_runtime (New 3 0 0)
     (NewLabelValue (bytes_of ''TXT:Greeting'') (bytes_of ''Hello!'') []) False"

definition slice_ok :: "heap \<Rightarrow> slice \<Rightarrow> bool" where
  "slice_ok h s = (s_len s \<le> s_cap s \<and>
     (s_cap s = 0 \<or> (s_ptr s < length h \<and> s_off s + s_cap s \<le> length (h ! s_ptr s))))"

definition at_bytes :: "CSFUtil \<Rightarrow> byte list \<Rightarrow> bool" where
  "at_bytes r bs = (drop (fpos r) (fdata r) = bs \<and> length (dword r) = 4)"

definition advance :: "CSFUtil \<Rightarrow> nat \<Rightarrow> byte list \<Rightarrow> CSFUtil" where
  "advance r n d = r\<lparr>fpos := fpos r + n, dword := d\<rparr>"

definition wire_label :: "Label \<Rightarrow> byte list" where
  "wire_label l =
     LabelIdentifier @ PutUint32 (StringPairs l) @ PutUint32 (length (lValue l)) @ lValue l"

definition wire_entry :: "LabelValue \<Rightarrow> byte list" where
  "wire_entry e = wire_label (lvLabel e) @ Value_Bytes (lvValue e)"

definition wire_header :: "nat \<Rightarrow> nat \<Rightarrow> nat \<Rightarrow> nat \<Rightarrow> nat \<Rightarrow> byte list" where
  "wire_header ver nl ns un lang =
     CSFFileIdentifier @ PutUint32 ver @ PutUint32 nl @ PutUint32 ns @ PutUint32 un
     @ PutUint32 lang"

definition wf_label :: "Label \<Rightarrow> bool" where
  "wf_label l = (StringPairs l < 2 ^ 32 \<and> length (lValue l) < 2 ^ 32)"

definition wf_value :: "Value \<Rightarrow> bool" where
  "wf_value v =
     (even (length (vValue v)) \<and> length (vValue v) div 2 < 2 ^ 32
      \<and> length (ExtraValue v) < 2 ^ 32 \<and> (HaveExtra v \<or> ExtraValue v = []))"

definition wf_entry :: "LabelValue \<Rightarrow> bool" where
  "wf_entry e = (wf_label (lvLabel e) \<and> wf_value (lvValue e))"

definition value_dword :: "Value \<Rightarrow> byte list" where
  "value_dword v =
     (if HaveExtra v then PutUint32 (length (ExtraValue v))
      else PutUint32 (length (vValue v) div 2))"

definition set_header :: "CSFUtil \<Rightarrow> nat \<Rightarrow> nat \<Rightarrow> nat \<Rightarrow> nat \<Rightarrow> nat \<Rightarrow> CSFUtil" where
  "set_header r ver nl ns un lang =
     r\<lparr>Version := ver, NumLabels := nl, NumStrings := ns, Unused := un, Language := lang\<rparr>"

definition decoded :: "nat \<Rightarrow> LabelValue \<Rightarrow> LabelValue" where
  "decoded p e =
     \<lparr>lvLabel = (lvLabel e)\<lparr>lOffset := p\<rparr>,
      lvValue = (lvValue e)\<lparr>vOffset := p + length (wire_label (lvLabel e))\<rparr>\<rparr>"

fun decoded_all :: "nat \<Rightarrow> LabelValue list \<Rightarrow> LabelValue list" where
  "decoded_all p [] = []"
| "decoded_all p (e # es) = decoded p e # decoded_all (p + length (wire_entry e)) es"

definition store_entry :: "runtime \<Rightarrow> locals \<Rightarrow> LabelValue \<Rightarrow> locals" where
  "store_entry rt l d =
     (readContent_store rt l (lvLabel d) (lvValue d))\<lparr>counter := counter l + 1\<rparr>"

definition entry_key :: "runtime \<Rightarrow> LabelValue \<Rightarrow> gostring" where
  "entry_key rt e = ToUpper rt (Label_ValueString (lvLabel e))"

definition clear_offsets :: "LabelValue \<Rightarrow> LabelValue" where
  "clear_offsets e =
     \<lparr>lvLabel = (lvLabel e)\<lparr>lOffset := 0\<rparr>, lvValue = (lvValue e)\<lparr>vOffset := 0\<rparr>\<rparr>"

definition order_of :: "locals \<Rightarrow> gostring list" where
  "order_of l = slice_elems (lmem l) (listOrder l)"

fun new_keys :: "gostring set \<Rightarrow> gostring list \<Rightarrow> gostring list" where
  "new_keys S [] = []"
| "new_keys S (k # ks) = (if k \<in> S then new_keys S ks else k # new_keys (insert k S) ks)"

definition wf_header :: "nat \<Rightarrow> nat \<Rightarrow> nat \<Rightarrow> nat \<Rightarrow> nat \<Rightarrow> bool" where
  "wf_header ver nl ns un lang =
     (ver < 2 ^ 32 \<and> nl < 2 ^ 32 \<and> ns < 2 ^ 32 \<and> un < 2 ^ 32 \<and> lang < 2 ^ 32)"

definition csf_stream :: "nat \<Rightarrow> nat \<Rightarrow> nat \<Rightarrow> nat \<Rightarrow> nat \<Rightarrow> LabelValue list \<Rightarrow> byte list" where
  "csf_stream ver nl ns un lang es =
     wire_header ver nl ns un lang @ concat (map wire_entry es)"

definition locals0 :: locals where
  "locals0 = \<lparr>mapLabelValue = Map.empty, mapCate = Map.empty, listOrder = nil_slice,
              lmem = [], counter = 0\<rparr>"

definition decoded_locals :: "runtime \<Rightarrow> LabelValue list \<Rightarrow> locals" where
  "decoded_locals rt es = foldl (store_entry rt) locals0 (decoded_all 24 es)"

definition ex_pairs2 :: LabelValue where
  "ex_pairs2 = ex_A\<lparr>lvLabel := (lvLabel ex_A)\<lparr>StringPairs := 2\<rparr>\<rparr>"

definition ex_Foo1 :: LabelValue where
  "ex_Foo1 = NewLabelValue (bytes_of ''TXT:Foo'') (bytes_of ''first'') []"

definition ex_Foo2 :: LabelValue where
  "ex_Foo2 = NewLabelValue (bytes_of ''TXT:Foo'') (bytes_of ''second'') []"

definition framed :: "CSFUtil \<Rightarrow> CSFUtil \<Rightarrow> bool" where
  "framed r r' =
     (fdata r' = fdata r \<and> length (dword r') = length (dword r) \<and> Values r' = Values r
      \<and> Categories r' = Categories r \<and> Order r' = Order r \<and> mem r' = mem r)"

definition ex_bad_label :: "byte list" where
  "ex_bad_label = csf_stream 3 0 0 0 0 [] @ bytes_of ''XLBL''"

lemmas csf_eval =
  NewLabelValue_def NewLabelValueWithOffset_def Label_Write_def Value_Write_def
  EncodeUTF16_def utf16_Encode_def utf16_EncodeRune_def utf8_size_def utf8_accept_def
  utf8_cont_def bytes_of_def complement_def WriteLabelValue_def WriteLabelValueBefore_def
  New_def zero_CSFUtil_def ToUpper_def ascii_upper_def example_runtime_def
  Label_ValueString_def go_append_def nil_slice_def Order_list_def slice_elems_def
  reslice_def write_at_def Let_def

section \<open>The write operations\<close>

lemma Categories_WriteLabelValueBefore:
  "Categories (WriteLabelValueBefore rt r lv ow s) = Categories r"
  by (simp add: WriteLabelValueBefore_def Let_def split: option.splits prod.splits)

text \<open>
  Claim C3 (order and key set after writes).  The claim asks that after any sequence
  of writes and removals the order list has no duplicate and has the keys of \<open>Values\<close>
  as its elements.  The table \<open>ex_AB\<close>, built by two calls of \<^verbatim>\<open>WriteLabelValue\<close> on
  a new table, satisfies both; writing a third entry before \<open>TXT:A\<close> with
  \<^verbatim>\<open>WriteLabelValueBefore\<close> leaves an order list that holds \<open>TXT:C\<close> twice and has lost
  \<open>TXT:A\<close>, while \<open>Values\<close> has the three keys.  The inner \<^verbatim>\<open>append\<close> writes the new
  name into the shared backing array, over the successor, before the tail is copied.
\<close>

theorem insert_before_breaks_order:
  "distinct (Order_list ex_AB) \<and> set (Order_list ex_AB) = dom (Values ex_AB)
   \<and> Order_list (WriteLabelValueBefore example_runtime ex_AB ex_C False (bytes_of ''TXT:A''))
       = [bytes_of ''TXT:C'', bytes_of ''TXT:C'', bytes_of ''TXT:B'']
   \<and> dom (Values (WriteLabelValueBefore example_runtime ex_AB ex_C False (bytes_of ''TXT:A'')))
       = {bytes_of ''TXT:A'', bytes_of ''TXT:B'', bytes_of ''TXT:C''}"
  by (simp add: ex_AB_def ex_A_def ex_B_def ex_C_def csf_eval insert_commute)

text \<open>
  Claim C4 (insertion before the successor).  The claim asks that a new name written
  with an existing successor ends up immediately before the successor, all other names
  kept.  On \<open>ex_AB\<close>, whose order is \<open>TXT:A, TXT:B\<close>, writing \<open>TXT:C\<close> before
  \<open>TXT:b\<close> gives \<open>TXT:A, TXT:C, TXT:C\<close>: the successor is overwritten, not preserved.
\<close>

theorem insert_before_overwrites_successor:
  "Values ex_AB (bytes_of ''TXT:C'') = None
   \<and> Values ex_AB (bytes_of ''TXT:B'') \<noteq> None
   \<and> Order_list ex_AB = [bytes_of ''TXT:A'', bytes_of ''TXT:B'']
   \<and> Order_list (WriteLabelValueBefore example_runtime ex_AB ex_C False (bytes_of ''TXT:b''))
       = [bytes_of ''TXT:A'', bytes_of ''TXT:C'', bytes_of ''TXT:C'']"
  by (simp add: ex_AB_def ex_A_def ex_B_def ex_C_def csf_eval)

text \<open>
  Claim C6 (category of a newly written name), as amended.  \<^verbatim>\<open>WriteLabelValueBefore\<close>
  and \<^verbatim>\<open>WriteLabelValue\<close> never touch the category index: it is the same after the
  call as before, whether the name is new or not.  Only the decoding pass assigns
  categories.
\<close>

theorem write_leaves_categories:
  "Categories (WriteLabelValueBefore rt r lv overwriteLabel successor) = Categories r
   \<and> Categories (WriteLabelValue rt r lv overwriteLabel) = Categories r"
  by (simp add: WriteLabelValue_def Categories_WriteLabelValueBefore)

text \<open>
  Claim C6 as stated fails: \<open>TXT:Greeting\<close> written into a new table is a new name,
  and afterwards the category index has no entry for \<open>TXT\<close> at all.
\<close>

theorem write_new_name_no_category:
  "Values (New 3 0 0) (bytes_of ''TXT:GREETING'') = None
   \<and> Categories (WriteLabelValue example_runtime (New 3 0 0)
        (NewLabelValue (bytes_of ''TXT:Greeting'') (bytes_of ''Hello!'') []) False)
        (bytes_of ''TXT'') = None"
  by (simp add: WriteLabelValue_def Categories_WriteLabelValueBefore New_def zero_CSFUtil_def)

lemmas rd_eval =
  Open_def openAndParse_def readHeader_def readContent_def readContent_loop.simps
  readContent_store_def readLabel_def readValue_def checkIdentifier_def readUInt_def
  readDWORD_def read_def file_Read_def pos_def Uint32_def PutUint32_def
  CSFFileIdentifier_def LabelIdentifier_def ValueIdentifier_def
  ValueWithExtraIdentifier_def strings_Contains_colon_def strings_Index_colon_def
  Save_def LabelValue_Bytes_def Label_Bytes_def Value_Bytes_def ValueString_def
  DecodeUTF16_def string_of_runes_def encoderune_def RuneError_def

text \<open>
  Claim C2 (the minimal table).  The table \<open>ex_greeting\<close> has the header scalars
  \<open>(3, 1, 1, 0, 0)\<close> and the one entry \<open>TXT:Greeting\<close> with the text \<open>Hello!\<close> and no
  extra value.  Saving it and opening the bytes succeeds and gives the text \<open>Hello!\<close>
  back, but the category \<open>TXT\<close> is bound to the empty list, not to the list holding
  \<open>TXT:Greeting\<close>: the first label of a category creates the category and is not
  appended to it.
\<close>

theorem greeting_category_is_empty:
  "(Version ex_greeting, NumLabels ex_greeting, NumStrings ex_greeting, Unused ex_greeting,
    Language ex_greeting) = (3, 1, 1, 0, 0)
   \<and> snd (Open example_runtime (Save ex_greeting)) = None
   \<and> map_option (\<lambda>lv. ValueString (lvValue lv))
        (Values (fst (Open example_runtime (Save ex_greeting))) (bytes_of ''TXT:GREETING''))
       = Some (bytes_of ''Hello!'')
   \<and> Categories (fst (Open example_runtime (Save ex_greeting))) (bytes_of ''TXT'') = Some []"
  by (simp add: ex_greeting_def csf_eval rd_eval)

lemma slice_ok_nil: "slice_ok h nil_slice"
  by (simp add: slice_ok_def nil_slice_def)

lemma slice_elems_nil: "slice_elems h nil_slice = []"
  by (simp add: slice_elems_def nil_slice_def)

lemma length_slice_elems: "slice_ok h s \<Longrightarrow> length (slice_elems h s) = s_len s"
  by (auto simp: slice_ok_def slice_elems_def)

lemma write_at_view:
  assumes "off + n + length xs \<le> length a"
  shows "take (n + length xs) (drop off (write_at a (off + n) xs)) = take n (drop off a) @ xs"
proof -
  have l: "length (take (off + n) a) = off + n" using assms by simp
  have d: "drop off (take (off + n) a) = take n (drop off a)"
    by (simp add: drop_take)
  have ln: "length (take n (drop off a)) = n" using assms by simp
  have "drop off (write_at a (off + n) xs)
        = take n (drop off a) @ xs @ drop (off + n + length xs) a"
    unfolding write_at_def using l d by simp
  then show ?thesis using ln by simp
qed

lemma go_append_elems:
  assumes "slice_ok h s" "go_append rt h s xs = (h', s')"
  shows "slice_elems h' s' = slice_elems h s @ xs \<and> slice_ok h' s'"
proof (cases "s_len s + length xs \<le> s_cap s")
  case True
  show ?thesis
  proof (cases "xs = []")
    case True
    with assms show ?thesis
      by (auto simp: go_append_def Let_def slice_ok_def slice_elems_def write_at_def)
  next
    case False
    then have "0 < length xs" by simp
    with True have c: "s_cap s \<noteq> 0" by linarith
    with assms(1) have p: "s_ptr s < length h" "s_off s + s_cap s \<le> length (h ! s_ptr s)"
      "s_len s \<le> s_cap s"
      by (auto simp: slice_ok_def)
    from assms(2) True have h': "h' = h[s_ptr s := write_at (h ! s_ptr s) (s_off s + s_len s) xs]"
      and s': "s' = s\<lparr>s_len := s_len s + length xs\<rparr>"
      by (auto simp: go_append_def Let_def)
    have len: "length (write_at (h ! s_ptr s) (s_off s + s_len s) xs) = length (h ! s_ptr s)"
      using p True by (simp add: write_at_def)
    have "take (s_len s + length xs) (drop (s_off s) (write_at (h ! s_ptr s) (s_off s + s_len s) xs))
          = take (s_len s) (drop (s_off s) (h ! s_ptr s)) @ xs"
      using p True write_at_view [of "s_off s" "s_len s" xs "h ! s_ptr s"] by simp
    then show ?thesis
      using p True len by (simp add: h' s' slice_elems_def slice_ok_def)
  qed
next
  case False
  with assms show ?thesis
    by (auto simp: go_append_def Let_def slice_ok_def slice_elems_def nth_append)
qed

lemma drop_more: "drop p xs = d @ rest \<Longrightarrow> drop (p + length d) xs = rest"
  by (metis add.commute append_eq_conv_conj drop_drop)

lemma at_bytes_advance:
  "at_bytes r (d @ rest) \<Longrightarrow> length d = n \<Longrightarrow> length d' = 4 \<Longrightarrow> at_bytes (advance r n d') rest"
  by (auto simp: at_bytes_def advance_def drop_more)

lemma advance_advance: "advance (advance r n d) m e = advance r (n + m) e"
  by (simp add: advance_def add.assoc)

lemma advance_fields [simp]:
  "fpos (advance r n d) = fpos r + n" "dword (advance r n d) = d"
  "fdata (advance r n d) = fdata r" "Version (advance r n d) = Version r"
  "NumLabels (advance r n d) = NumLabels r" "NumStrings (advance r n d) = NumStrings r"
  "Unused (advance r n d) = Unused r" "Language (advance r n d) = Language r"
  "Values (advance r n d) = Values r" "Categories (advance r n d) = Categories r"
  "Order (advance r n d) = Order r" "mem (advance r n d) = mem r"
  by (simp_all add: advance_def)

lemma at_bytes_nonempty: "at_bytes r (b # bs) \<Longrightarrow> fpos r < length (fdata r)"
  by (auto simp: at_bytes_def) (metis drop_all linorder_not_less list.distinct(1))

lemma file_Read_ok:
  assumes "at_bytes r (d @ rest)" "length d = n"
  shows "file_Read r n = (Inr d, r\<lparr>fpos := fpos r + n\<rparr>)"
proof (cases "n = 0")
  case True
  with assms show ?thesis by (simp add: file_Read_def)
next
  case False
  with assms obtain b bs where "d @ rest = b # bs" by (cases d) auto
  with assms have "fpos r < length (fdata r)" using at_bytes_nonempty by metis
  with assms False show ?thesis
    by (simp add: file_Read_def at_bytes_def Let_def)
qed

lemma readDWORD_ok:
  assumes "at_bytes r (d @ rest)" "length d = 4"
  shows "readDWORD r = (Inr d, advance r 4 d)"
proof -
  have "length (dword r) = 4" using assms by (simp add: at_bytes_def)
  then show ?thesis
    using file_Read_ok [OF assms] assms(2) by (simp add: readDWORD_def advance_def)
qed

lemma le32_digits:
  assumes "v < (2::nat) ^ 32"
  shows "v mod 256 + 256 * (v div 256 mod 256) + 65536 * (v div 65536 mod 256)
         + 16777216 * (v div 16777216 mod 256) = v"
proof -
  define x where "x = v div 256"
  define y where "y = x div 256"
  define z where "z = y div 256"
  have e1: "v div 65536 = y" by (simp add: x_def y_def div_mult2_eq)
  have e2: "v div 16777216 = z" by (simp add: x_def y_def z_def div_mult2_eq)
  have "z < 256" using assms unfolding e2 [symmetric]
    by (simp add: less_mult_imp_div_less)
  then have z: "z mod 256 = z" by simp
  have v: "v = 256 * x + v mod 256" by (simp add: x_def)
  have x: "x = 256 * y + x mod 256" by (simp add: y_def)
  have y: "y = 256 * z + y mod 256" by (simp add: z_def)
  define a where "a = v mod 256"
  define b where "b = x mod 256"
  define c where "c = y mod 256"
  have "a + 256 * b + 65536 * c + 16777216 * z = v"
    using v x y unfolding a_def [symmetric] b_def [symmetric] c_def [symmetric] by linarith
  then show ?thesis
    unfolding e1 e2 z a_def b_def c_def x_def [symmetric] by simp
qed

lemma Uint32_PutUint32: "v < 2 ^ 32 \<Longrightarrow> Uint32 (PutUint32 v) = v"
  using le32_digits [of v] by (simp add: Uint32_def PutUint32_def unat_of_nat)

lemma length_PutUint32 [simp]: "length (PutUint32 v) = 4"
  by (simp add: PutUint32_def)

lemma readUInt_ok:
  assumes "at_bytes r (PutUint32 v @ rest)" "v < 2 ^ 32"
  shows "readUInt r = (Inr v, advance r 4 (PutUint32 v))"
  using readDWORD_ok [OF assms(1)] assms(2) by (simp add: readUInt_def Uint32_PutUint32)

lemma checkIdentifier_ok:
  assumes "at_bytes r (d @ rest)" "length d = 4" "d \<in> set ids"
  shows "checkIdentifier r ids = (None, advance r 4 d)"
  using readDWORD_ok [OF assms(1,2)] assms(3) by (simp add: checkIdentifier_def)

lemma read_ok:
  assumes "at_bytes r (d @ rest)" "length d = n"
  shows "read r n = (Inr d, advance r n (dword r))"
  using file_Read_ok [OF assms] assms(2) by (simp add: read_def advance_def)

lemma length_ids [simp]:
  "length CSFFileIdentifier = 4" "length LabelIdentifier = 4"
  "length ValueIdentifier = 4" "length ValueWithExtraIdentifier = 4"
  by (simp_all add: CSFFileIdentifier_def LabelIdentifier_def ValueIdentifier_def
      ValueWithExtraIdentifier_def bytes_of_def)

lemma length_wire_label: "length (wire_label l) = 12 + length (lValue l)"
  by (simp add: wire_label_def)

lemma readLabel_ok:
  assumes a: "at_bytes r (wire_label l @ rest)" and w: "wf_label l"
  shows "readLabel r
         = (Inr (l\<lparr>lOffset := fpos r\<rparr>),
            advance r (12 + length (lValue l)) (PutUint32 (length (lValue l))))"
proof -
  let ?pc = "PutUint32 (StringPairs l)" and ?ln = "PutUint32 (length (lValue l))"
  from a have a0: "at_bytes r (LabelIdentifier @ (?pc @ ?ln @ lValue l @ rest))"
    by (simp add: wire_label_def)
  have c0: "checkIdentifier r [LabelIdentifier] = (None, advance r 4 LabelIdentifier)"
    by (rule checkIdentifier_ok [OF a0]) simp_all
  have a1: "at_bytes (advance r 4 LabelIdentifier) (?pc @ (?ln @ lValue l @ rest))"
    by (rule at_bytes_advance [OF a0]) simp_all
  have c1: "readUInt (advance r 4 LabelIdentifier)
            = (Inr (StringPairs l), advance r 8 ?pc)"
    using readUInt_ok [OF a1] w by (simp add: wf_label_def advance_advance)
  have a2: "at_bytes (advance r 8 ?pc) (?ln @ (lValue l @ rest))"
    using at_bytes_advance [OF a1, of 4 ?pc] by (simp add: advance_advance)
  have c2: "readUInt (advance r 8 ?pc) = (Inr (length (lValue l)), advance r 12 ?ln)"
    using readUInt_ok [OF a2] w by (simp add: wf_label_def advance_advance)
  have a3: "at_bytes (advance r 12 ?ln) (lValue l @ rest)"
    using at_bytes_advance [OF a2, of 4 ?ln] by (simp add: advance_advance)
  have c3: "read (advance r 12 ?ln) (length (lValue l))
            = (Inr (lValue l), advance r (12 + length (lValue l)) ?ln)"
    using read_ok [OF a3] by (simp add: advance_advance)
  show ?thesis
    by (simp add: readLabel_def Let_def pos_def c0 c1 c2 c3)
qed

lemma at_after_label:
  assumes "at_bytes r (wire_label l @ rest)"
  shows "at_bytes (advance r (12 + length (lValue l)) (PutUint32 (length (lValue l)))) rest"
  using at_bytes_advance [OF assms, of "12 + length (lValue l)"]
  by (simp add: length_wire_label)

lemma ids_distinct: "(ValueIdentifier = bytes_of ''WRTS'') = False"
  "(ValueWithExtraIdentifier = bytes_of ''WRTS'') = True"
  by (simp_all add: ValueIdentifier_def ValueWithExtraIdentifier_def bytes_of_def)

lemma readValue_ok:
  assumes a: "at_bytes r (Value_Bytes v @ rest)" and w: "wf_value v"
  shows "readValue r
         = (Inr (v\<lparr>vOffset := fpos r\<rparr>), advance r (length (Value_Bytes v)) (value_dword v))"
proof -
  let ?id = "if HaveExtra v then ValueWithExtraIdentifier else ValueIdentifier"
  let ?cc = "PutUint32 (length (vValue v) div 2)"
  let ?ex = "if HaveExtra v then PutUint32 (length (ExtraValue v)) @ ExtraValue v else []"
  have len2: "length (vValue v) div 2 * 2 = length (vValue v)"
    using w by (simp add: wf_value_def)
  from a have a0: "at_bytes r (?id @ (?cc @ vValue v @ ?ex @ rest))"
    by (simp add: Value_Bytes_def)
  have c0: "checkIdentifier r [ValueIdentifier, ValueWithExtraIdentifier] = (None, advance r 4 ?id)"
    by (rule checkIdentifier_ok [OF a0]) simp_all
  have a1: "at_bytes (advance r 4 ?id) (?cc @ (vValue v @ ?ex @ rest))"
    by (rule at_bytes_advance [OF a0]) simp_all
  have c1: "readUInt (advance r 4 ?id) = (Inr (length (vValue v) div 2), advance r 8 ?cc)"
    using readUInt_ok [OF a1] w by (simp add: wf_value_def advance_advance)
  have a2: "at_bytes (advance r 8 ?cc) (vValue v @ (?ex @ rest))"
    using at_bytes_advance [OF a1, of 4 ?cc] by (simp add: advance_advance)
  have c2: "read (advance r 8 ?cc) (length (vValue v) div 2 * 2)
            = (Inr (vValue v), advance r (8 + length (vValue v)) ?cc)"
    using read_ok [OF a2, of "length (vValue v)"] by (simp add: advance_advance len2)
  have a3: "at_bytes (advance r (8 + length (vValue v)) ?cc) (?ex @ rest)"
    using at_bytes_advance [OF a2, of "length (vValue v)" ?cc] by (simp add: advance_advance)
  show ?thesis
  proof (cases "HaveExtra v")
    case False
    then have "ExtraValue v = []" using w by (simp add: wf_value_def)
    with False c0 c1 c2 show ?thesis
      by (simp add: readValue_def Let_def pos_def ids_distinct Value_Bytes_def
          value_dword_def)
  next
    case True
    let ?el = "PutUint32 (length (ExtraValue v))"
    from a3 True have a3': "at_bytes (advance r (8 + length (vValue v)) ?cc) (?el @ (ExtraValue v @ rest))"
      by simp
    have c3: "readUInt (advance r (8 + length (vValue v)) ?cc)
              = (Inr (length (ExtraValue v)), advance r (12 + length (vValue v)) ?el)"
      using readUInt_ok [OF a3'] w by (simp add: wf_value_def advance_advance)
    have a4: "at_bytes (advance r (12 + length (vValue v)) ?el) (ExtraValue v @ rest)"
      using at_bytes_advance [OF a3', of 4 ?el] by (simp add: advance_advance)
    have c4: "read (advance r (12 + length (vValue v)) ?el) (length (ExtraValue v))
              = (Inr (ExtraValue v),
                 advance r (12 + length (vValue v) + length (ExtraValue v)) ?el)"
      using read_ok [OF a4] by (simp add: advance_advance)
    from True c0 c1 c2 c3 c4 show ?thesis
      by (simp add: readValue_def Let_def pos_def ids_distinct Value_Bytes_def
          value_dword_def add.commute add.left_commute)
  qed
qed

lemma at_after_value:
  assumes "at_bytes r (Value_Bytes v @ rest)"
  shows "at_bytes (advance r (length (Value_Bytes v)) (value_dword v)) rest"
  using at_bytes_advance [OF assms, of "length (Value_Bytes v)" "value_dword v"]
  by (simp add: value_dword_def)

lemma at_bytes_upd [simp]:
  "at_bytes (r\<lparr>Version := a\<rparr>) bs = at_bytes r bs"
  "at_bytes (r\<lparr>NumLabels := a\<rparr>) bs = at_bytes r bs"
  "at_bytes (r\<lparr>NumStrings := a\<rparr>) bs = at_bytes r bs"
  "at_bytes (r\<lparr>Unused := a\<rparr>) bs = at_bytes r bs"
  "at_bytes (r\<lparr>Language := a\<rparr>) bs = at_bytes r bs"
  by (simp_all add: at_bytes_def)

lemma at_bytes_later:
  assumes "at_bytes r (xs @ rest)" "length xs = n" "length (dword r') = 4"
    "fdata r' = fdata r" "fpos r' = fpos r + n"
  shows "at_bytes r' rest"
  using assms drop_more [of "fpos r" "fdata r" xs rest] by (simp add: at_bytes_def)

lemma readHeader_ok:
  assumes a: "at_bytes r (wire_header ver nl ns un lang @ rest)"
    and w: "ver < 2 ^ 32" "nl < 2 ^ 32" "ns < 2 ^ 32" "un < 2 ^ 32" "lang < 2 ^ 32"
  shows "readHeader r = (None, set_header (advance r 24 (PutUint32 lang)) ver nl ns un lang)"
proof -
  let ?r1 = "advance r 4 CSFFileIdentifier"
  let ?r2 = "(advance r 8 (PutUint32 ver))\<lparr>Version := ver\<rparr>"
  let ?r3 = "(advance r 12 (PutUint32 nl))\<lparr>Version := ver, NumLabels := nl\<rparr>"
  let ?r4 = "(advance r 16 (PutUint32 ns))\<lparr>Version := ver, NumLabels := nl, NumStrings := ns\<rparr>"
  let ?r5 = "(advance r 20 (PutUint32 un))\<lparr>Version := ver, NumLabels := nl, NumStrings := ns,
               Unused := un\<rparr>"
  from a have a0: "at_bytes r (CSFFileIdentifier @ (PutUint32 ver @ PutUint32 nl @ PutUint32 ns
                     @ PutUint32 un @ PutUint32 lang @ rest))"
    by (simp add: wire_header_def)
  have c0: "checkIdentifier r [CSFFileIdentifier] = (None, ?r1)"
    by (rule checkIdentifier_ok [OF a0]) simp_all
  have a1: "at_bytes ?r1 (PutUint32 ver @ (PutUint32 nl @ PutUint32 ns
                     @ PutUint32 un @ PutUint32 lang @ rest))"
    by (rule at_bytes_later [OF a0, of 4]) simp_all
  have c1: "readUInt ?r1 = (Inr ver, advance r 8 (PutUint32 ver))"
    using readUInt_ok [OF a1 w(1)] by (simp add: advance_advance)
  have a2: "at_bytes ?r2 (PutUint32 nl @ (PutUint32 ns @ PutUint32 un @ PutUint32 lang @ rest))"
    by (rule at_bytes_later [OF a1, of 4]) (simp_all add: advance_def)
  have c2: "readUInt ?r2 = (Inr nl, (advance r 12 (PutUint32 nl))\<lparr>Version := ver\<rparr>)"
    using readUInt_ok [OF a2 w(2)] by (simp add: advance_def)
  have a3: "at_bytes ?r3 (PutUint32 ns @ (PutUint32 un @ PutUint32 lang @ rest))"
    by (rule at_bytes_later [OF a2, of 4]) (simp_all add: advance_def)
  have c3: "readUInt ?r3 = (Inr ns, (advance r 16 (PutUint32 ns))\<lparr>Version := ver, NumLabels := nl\<rparr>)"
    using readUInt_ok [OF a3 w(3)] by (simp add: advance_def)
  have a4: "at_bytes ?r4 (PutUint32 un @ (PutUint32 lang @ rest))"
    by (rule at_bytes_later [OF a3, of 4]) (simp_all add: advance_def)
  have c4: "readUInt ?r4 = (Inr un, (advance r 20 (PutUint32 un))\<lparr>Version := ver, NumLabels := nl,
              NumStrings := ns\<rparr>)"
    using readUInt_ok [OF a4 w(4)] by (simp add: advance_def)
  have a5: "at_bytes ?r5 (PutUint32 lang @ rest)"
    by (rule at_bytes_later [OF a4, of 4]) (simp_all add: advance_def)
  have c5: "readUInt ?r5 = (Inr lang, (advance r 24 (PutUint32 lang))\<lparr>Version := ver,
              NumLabels := nl, NumStrings := ns, Unused := un\<rparr>)"
    using readUInt_ok [OF a5 w(5)] by (simp add: advance_def)
  show ?thesis
    by (simp add: readHeader_def c0 c1 c2 c3 c4 c5 set_header_def)
qed

lemma at_after_header:
  assumes "at_bytes r (wire_header ver nl ns un lang @ rest)"
  shows "at_bytes (set_header (advance r 24 (PutUint32 lang)) ver nl ns un lang) rest"
  by (rule at_bytes_later [OF assms, of 24])
     (simp_all add: wire_header_def set_header_def)

lemma counter_store_entry [simp]: "counter (store_entry rt l d) = counter l + 1"
  by (simp add: store_entry_def)

lemma counter_foldl_store [simp]:
  "counter (foldl (store_entry rt) l ds) = counter l + length ds"
  by (induction ds arbitrary: l) simp_all

lemma length_decoded_all [simp]: "length (decoded_all p es) = length es"
  by (induction es arbitrary: p) simp_all

lemma loop_step:
  assumes a: "at_bytes r (wire_entry e @ rest)" and w: "wf_entry e"
  shows "\<exists>d. length d = 4 \<and>
           at_bytes (advance r (length (wire_entry e)) d) rest \<and>
           readContent_loop rt r l =
             (if counter l + 1 > 20000
              then (Inl TooManyStrings, advance r (length (wire_entry e)) d)
              else readContent_loop rt (advance r (length (wire_entry e)) d)
                     (store_entry rt l (decoded (fpos r) e)))"
proof -
  let ?l = "lvLabel e" and ?v = "lvValue e"
  let ?r1 = "advance r (12 + length (lValue ?l)) (PutUint32 (length (lValue ?l)))"
  from a have a0: "at_bytes r (wire_label ?l @ (Value_Bytes ?v @ rest))"
    by (simp add: wire_entry_def)
  from w have wl: "wf_label ?l" and wv: "wf_value ?v" by (simp_all add: wf_entry_def)
  have c0: "readLabel r = (Inr (?l\<lparr>lOffset := fpos r\<rparr>), ?r1)"
    by (rule readLabel_ok [OF a0 wl])
  have a1: "at_bytes ?r1 (Value_Bytes ?v @ rest)" by (rule at_after_label [OF a0])
  have c1: "readValue ?r1
            = (Inr (?v\<lparr>vOffset := fpos ?r1\<rparr>),
               advance ?r1 (length (Value_Bytes ?v)) (value_dword ?v))"
    by (rule readValue_ok [OF a1 wv])
  have a2: "at_bytes (advance ?r1 (length (Value_Bytes ?v)) (value_dword ?v)) rest"
    by (rule at_after_value [OF a1])
  have e: "advance ?r1 (length (Value_Bytes ?v)) (value_dword ?v)
           = advance r (length (wire_entry e)) (value_dword ?v)"
    by (simp add: advance_advance wire_entry_def length_wire_label)
  have d: "length (value_dword ?v) = 4" by (simp add: value_dword_def)
  have s: "readContent_loop rt r l =
             (if counter l + 1 > 20000
              then (Inl TooManyStrings, advance r (length (wire_entry e)) (value_dword ?v))
              else readContent_loop rt (advance r (length (wire_entry e)) (value_dword ?v))
                     (store_entry rt l (decoded (fpos r) e)))"
    apply (subst readContent_loop.simps)
    apply (simp add: c0 c1 e Let_def store_entry_def decoded_def length_wire_label)
    done
  show ?thesis
    using d a2 s unfolding e by blast
qed

lemma loop_eof:
  assumes "at_bytes r []"
  shows "readContent_loop rt r l = (Inr l, r)"
proof -
  from assms have "length (fdata r) \<le> fpos r" "length (dword r) = 4"
    by (simp_all add: at_bytes_def)
  then have "readLabel r = (Inl (Wrapped ''not a valid label start'' EOF (fpos r)), r)"
    by (simp add: readLabel_def checkIdentifier_def readDWORD_def file_Read_def pos_def)
  then show ?thesis
    by (subst readContent_loop.simps) simp
qed

lemma advance_zero: "advance r 0 (dword r) = r"
  by (simp add: advance_def)

lemma loop_prefix:
  assumes "list_all wf_entry es" "at_bytes r (concat (map wire_entry es) @ rest)"
    "counter l + length es \<le> 20000"
  shows "\<exists>d. length d = 4 \<and>
           readContent_loop rt r l
             = readContent_loop rt (advance r (length (concat (map wire_entry es))) d)
                 (foldl (store_entry rt) l (decoded_all (fpos r) es))"
  using assms
proof (induction es arbitrary: r l)
  case Nil
  then have "length (dword r) = 4" by (simp add: at_bytes_def)
  then show ?case by (intro exI [of _ "dword r"]) (simp add: advance_zero)
next
  case (Cons e es)
  from Cons.prems have w: "wf_entry e" and ws: "list_all wf_entry es" by simp_all
  from Cons.prems have a: "at_bytes r (wire_entry e @ (concat (map wire_entry es) @ rest))"
    by simp
  from Cons.prems have c: "\<not> counter l + 1 > 20000" by simp
  from loop_step [OF a w, of rt l] c obtain d where
    d: "length d = 4"
    and a': "at_bytes (advance r (length (wire_entry e)) d) (concat (map wire_entry es) @ rest)"
    and s: "readContent_loop rt r l
            = readContent_loop rt (advance r (length (wire_entry e)) d)
                (store_entry rt l (decoded (fpos r) e))"
    by auto
  have c': "counter (store_entry rt l (decoded (fpos r) e)) + length es \<le> 20000"
    using Cons.prems by simp
  from Cons.IH [OF ws a' c'] obtain d' where
    "length d' = 4"
    "readContent_loop rt (advance r (length (wire_entry e)) d)
       (store_entry rt l (decoded (fpos r) e))
     = readContent_loop rt
         (advance (advance r (length (wire_entry e)) d) (length (concat (map wire_entry es))) d')
         (foldl (store_entry rt) (store_entry rt l (decoded (fpos r) e))
            (decoded_all (fpos (advance r (length (wire_entry e)) d)) es))"
    by blast
  then show ?case using s by (intro exI [of _ d']) (simp add: advance_advance)
qed

lemma loop_too_many:
  assumes "list_all wf_entry es" "at_bytes r (concat (map wire_entry es) @ rest)"
    "counter l \<le> 20000" "20000 < counter l + length es"
  shows "fst (readContent_loop rt r l) = Inl TooManyStrings"
  using assms
proof (induction es arbitrary: r l)
  case Nil
  then show ?case by simp
next
  case (Cons e es)
  from Cons.prems have w: "wf_entry e" and ws: "list_all wf_entry es" by simp_all
  from Cons.prems have a: "at_bytes r (wire_entry e @ (concat (map wire_entry es) @ rest))"
    by simp
  from loop_step [OF a w, of rt l] obtain d where
    d: "length d = 4"
    and a': "at_bytes (advance r (length (wire_entry e)) d) (concat (map wire_entry es) @ rest)"
    and s: "readContent_loop rt r l =
             (if counter l + 1 > 20000
              then (Inl TooManyStrings, advance r (length (wire_entry e)) d)
              else readContent_loop rt (advance r (length (wire_entry e)) d)
                     (store_entry rt l (decoded (fpos r) e)))"
    by auto
  show ?case
  proof (cases "counter l + 1 > 20000")
    case True
    with s show ?thesis by simp
  next
    case False
    then have c1: "counter (store_entry rt l (decoded (fpos r) e)) \<le> 20000" by simp
    have c2: "20000 < counter (store_entry rt l (decoded (fpos r) e)) + length es"
      using Cons.prems by simp
    from Cons.IH [OF ws a' c1 c2] s False show ?thesis by simp
  qed
qed

lemma clear_offsets_decoded [simp]: "clear_offsets (decoded p e) = clear_offsets e"
  by (simp add: clear_offsets_def decoded_def)

lemma entry_key_decoded [simp]: "entry_key rt (decoded p e) = entry_key rt e"
  by (simp add: entry_key_def decoded_def Label_ValueString_def)

lemma LabelValue_eta: "\<lparr>lvLabel = lvLabel d, lvValue = lvValue d\<rparr> = d"
  by (cases d) simp

lemma store_entry_map:
  "mapLabelValue (store_entry rt l d) = (mapLabelValue l)(entry_key rt d \<mapsto> d)"
  by (simp add: store_entry_def readContent_store_def Let_def entry_key_def LabelValue_eta
      split: option.splits prod.splits)

lemma store_entry_order:
  assumes "slice_ok (lmem l) (listOrder l)"
  shows "order_of (store_entry rt l d)
           = (if mapLabelValue l (entry_key rt d) = None then order_of l @ [entry_key rt d]
              else order_of l)
         \<and> slice_ok (lmem (store_entry rt l d)) (listOrder (store_entry rt l d))"
proof (cases "mapLabelValue l (entry_key rt d) = None")
  case False
  with assms show ?thesis
    by (auto simp: store_entry_def readContent_store_def Let_def entry_key_def order_of_def)
next
  case True
  obtain h lo where g: "go_append rt (lmem l) (listOrder l) [entry_key rt d] = (h, lo)"
    by (cases "go_append rt (lmem l) (listOrder l) [entry_key rt d]") auto
  from go_append_elems [OF assms g]
  have e: "slice_elems h lo = slice_elems (lmem l) (listOrder l) @ [entry_key rt d]"
    and ok: "slice_ok h lo" by simp_all
  have "lmem (store_entry rt l d) = h \<and> listOrder (store_entry rt l d) = lo"
    using True g
    by (simp add: store_entry_def readContent_store_def Let_def entry_key_def
        split: option.splits)
  with e ok True show ?thesis by (simp add: order_of_def)
qed

lemma new_keys_append:
  "new_keys S (xs @ ys) = new_keys S xs @ new_keys (S \<union> set xs) ys"
  by (induction xs arbitrary: S) (auto simp: insert_absorb)

lemma new_keys_distinct:
  "distinct ks \<Longrightarrow> set ks \<inter> S = {} \<Longrightarrow> new_keys S ks = ks"
  by (induction ks arbitrary: S) auto

lemma new_keys_seen: "set ks \<subseteq> S \<Longrightarrow> new_keys S ks = []"
  by (induction ks arbitrary: S) auto

lemma foldl_store_order:
  assumes "slice_ok (lmem l) (listOrder l)"
  shows "order_of (foldl (store_entry rt) l ds)
           = order_of l @ new_keys (dom (mapLabelValue l)) (map (entry_key rt) ds)
         \<and> slice_ok (lmem (foldl (store_entry rt) l ds)) (listOrder (foldl (store_entry rt) l ds))"
  using assms
proof (induction ds arbitrary: l)
  case Nil
  then show ?case by simp
next
  case (Cons d ds)
  from store_entry_order [OF Cons.prems, of rt d]
  have o: "order_of (store_entry rt l d)
           = (if mapLabelValue l (entry_key rt d) = None then order_of l @ [entry_key rt d]
              else order_of l)"
    and ok: "slice_ok (lmem (store_entry rt l d)) (listOrder (store_entry rt l d))"
    by simp_all
  have dm: "dom (mapLabelValue (store_entry rt l d)) = insert (entry_key rt d) (dom (mapLabelValue l))"
    by (simp add: store_entry_map)
  from Cons.IH [OF ok] o dm show ?case
    by (auto simp: insert_absorb domIff)
qed

lemma foldl_store_other:
  "k \<notin> entry_key rt ` set ds \<Longrightarrow>
   mapLabelValue (foldl (store_entry rt) l ds) k = mapLabelValue l k"
  by (induction ds arbitrary: l) (auto simp: store_entry_map)

lemma decoded_all_append:
  "decoded_all p (xs @ ys)
   = decoded_all p xs @ decoded_all (p + length (concat (map wire_entry xs))) ys"
  by (induction xs arbitrary: p) (simp_all add: add.assoc)

lemma set_keys_decoded_all [simp]:
  "entry_key rt ` set (decoded_all p es) = entry_key rt ` set es"
proof -
  have "set (map (entry_key rt) (decoded_all p es)) = set (map (entry_key rt) es)"
    by (induction es arbitrary: p) simp_all
  then show ?thesis by simp
qed

lemma foldl_store_last:
  assumes "entry_key rt e \<notin> entry_key rt ` set ys"
  shows "map_option clear_offsets
           (mapLabelValue (foldl (store_entry rt) l (decoded_all p (xs @ e # ys)))
              (entry_key rt e))
         = Some (clear_offsets e)"
proof -
  let ?q = "p + length (concat (map wire_entry xs))"
  let ?l1 = "foldl (store_entry rt) l (decoded_all p xs)"
  let ?l2 = "store_entry rt ?l1 (decoded ?q e)"
  have "foldl (store_entry rt) l (decoded_all p (xs @ e # ys))
        = foldl (store_entry rt) ?l2 (decoded_all (?q + length (wire_entry e)) ys)"
    by (simp add: decoded_all_append)
  moreover have "entry_key rt e \<notin> entry_key rt ` set (decoded_all (?q + length (wire_entry e)) ys)"
    using assms by simp
  ultimately have "mapLabelValue (foldl (store_entry rt) l (decoded_all p (xs @ e # ys)))
                     (entry_key rt e) = mapLabelValue ?l2 (entry_key rt e)"
    using foldl_store_other by metis
  then show ?thesis by (simp add: store_entry_map)
qed

lemma foldl_store_dom:
  "dom (mapLabelValue (foldl (store_entry rt) l ds))
   = dom (mapLabelValue l) \<union> entry_key rt ` set ds"
  by (induction ds arbitrary: l) (auto simp: store_entry_map)

lemma keys_decoded_all [simp]:
  "map (entry_key rt) (decoded_all p es) = map (entry_key rt) es"
  by (induction es arbitrary: p) simp_all

lemma open_start:
  "at_bytes (zero_CSFUtil\<lparr>fdata := bs, fpos := 0, dword := replicate 4 0\<rparr>) bs"
  by (simp add: at_bytes_def)

lemma Open_ok:
  assumes h: "wf_header ver nl ns un lang" and w: "list_all wf_entry es"
    and n: "length es \<le> 20000"
  shows "\<exists>r. Open rt (csf_stream ver nl ns un lang es) = (r, None)
           \<and> Version r = ver \<and> NumLabels r = nl \<and> NumStrings r = ns \<and> Unused r = un
           \<and> Language r = lang
           \<and> Values r = mapLabelValue (decoded_locals rt es)
           \<and> Categories r = mapCate (decoded_locals rt es)
           \<and> Order r = listOrder (decoded_locals rt es)
           \<and> mem r = lmem (decoded_locals rt es)"
proof -
  let ?S = "csf_stream ver nl ns un lang es"
  let ?r0 = "zero_CSFUtil\<lparr>fdata := ?S, fpos := 0, dword := replicate 4 0\<rparr>"
  let ?r1 = "set_header (advance ?r0 24 (PutUint32 lang)) ver nl ns un lang"
  have a0: "at_bytes ?r0 (wire_header ver nl ns un lang @ (concat (map wire_entry es) @ []))"
    using open_start [of ?S] by (simp add: csf_stream_def)
  from h have hs: "ver < 2 ^ 32" "nl < 2 ^ 32" "ns < 2 ^ 32" "un < 2 ^ 32" "lang < 2 ^ 32"
    by (simp_all add: wf_header_def)
  have c0: "readHeader ?r0 = (None, ?r1)"
    by (rule readHeader_ok [OF a0 hs])
  have a1: "at_bytes ?r1 (concat (map wire_entry es) @ [])"
    by (rule at_after_header [OF a0])
  have m: "mem ?r1 = []" "fpos ?r1 = 24"
    by (simp_all add: set_header_def zero_CSFUtil_def)
  have c: "counter locals0 + length es \<le> 20000" using n by (simp add: locals0_def)
  from loop_prefix [OF w a1 c, of rt] obtain d where
    d: "length d = 4"
    and s: "readContent_loop rt ?r1 locals0
            = readContent_loop rt (advance ?r1 (length (concat (map wire_entry es))) d)
                (decoded_locals rt es)"
    by (auto simp: decoded_locals_def m)
  let ?r2 = "advance ?r1 (length (concat (map wire_entry es))) d"
  have a2: "at_bytes ?r2 []"
    by (rule at_bytes_later [OF a1, of "length (concat (map wire_entry es))"])
       (simp_all add: d)
  have e: "readContent_loop rt ?r1 locals0 = (Inr (decoded_locals rt es), ?r2)"
    using s loop_eof [OF a2] by simp
  have l0: "\<lparr>mapLabelValue = Map.empty, mapCate = Map.empty, listOrder = nil_slice,
             lmem = mem ?r1, counter = 0\<rparr> = locals0"
    by (simp add: locals0_def m)
  have rc: "readContent rt ?r1
            = (None, ?r2\<lparr>Values := mapLabelValue (decoded_locals rt es),
                          Categories := mapCate (decoded_locals rt es),
                          Order := listOrder (decoded_locals rt es),
                          mem := lmem (decoded_locals rt es)\<rparr>)"
    unfolding readContent_def l0 e by simp
  let ?r3 = "?r2\<lparr>Values := mapLabelValue (decoded_locals rt es),
                  Categories := mapCate (decoded_locals rt es),
                  Order := listOrder (decoded_locals rt es),
                  mem := lmem (decoded_locals rt es)\<rparr>"
  have op: "openAndParse rt zero_CSFUtil ?S = (None, ?r3)"
    unfolding openAndParse_def Let_def c0 using rc by simp
  have o: "Open rt ?S = (?r3, None)"
    unfolding Open_def op by simp
  have f: "Version ?r3 = ver \<and> NumLabels ?r3 = nl \<and> NumStrings ?r3 = ns \<and> Unused ?r3 = un
           \<and> Language ?r3 = lang"
    by (simp add: set_header_def)
  show ?thesis
    using o f by (intro exI [of _ ?r3]) simp
qed

lemma Open_too_many:
  assumes h: "wf_header ver nl ns un lang" and w: "list_all wf_entry es"
    and n: "20000 < length es"
  shows "snd (Open rt (csf_stream ver nl ns un lang es)) = Some TooManyStrings"
proof -
  let ?S = "csf_stream ver nl ns un lang es"
  let ?r0 = "zero_CSFUtil\<lparr>fdata := ?S, fpos := 0, dword := replicate 4 0\<rparr>"
  let ?r1 = "set_header (advance ?r0 24 (PutUint32 lang)) ver nl ns un lang"
  have a0: "at_bytes ?r0 (wire_header ver nl ns un lang @ (concat (map wire_entry es) @ []))"
    using open_start [of ?S] by (simp add: csf_stream_def)
  from h have hs: "ver < 2 ^ 32" "nl < 2 ^ 32" "ns < 2 ^ 32" "un < 2 ^ 32" "lang < 2 ^ 32"
    by (simp_all add: wf_header_def)
  have c0: "readHeader ?r0 = (None, ?r1)"
    by (rule readHeader_ok [OF a0 hs])
  have a1: "at_bytes ?r1 (concat (map wire_entry es) @ [])"
    by (rule at_after_header [OF a0])
  have m: "mem ?r1 = []"
    by (simp_all add: set_header_def zero_CSFUtil_def)
  have l0: "\<lparr>mapLabelValue = Map.empty, mapCate = Map.empty, listOrder = nil_slice,
             lmem = mem ?r1, counter = 0\<rparr> = locals0"
    by (simp add: locals0_def m)
  have "fst (readContent_loop rt ?r1 locals0) = Inl TooManyStrings"
    by (rule loop_too_many [OF w a1]) (simp_all add: locals0_def n)
  then obtain r' where "readContent_loop rt ?r1 locals0 = (Inl TooManyStrings, r')"
    by (cases "readContent_loop rt ?r1 locals0") auto
  then have "readContent rt ?r1 = (Some TooManyStrings, r')"
    unfolding readContent_def l0 by simp
  then have "openAndParse rt zero_CSFUtil ?S = (Some TooManyStrings, r')"
    unfolding openAndParse_def Let_def c0 by simp
  then show ?thesis
    by (simp add: Open_def)
qed

lemma decoded_locals_order:
  "order_of (decoded_locals rt es) = new_keys {} (map (entry_key rt) es)"
  using foldl_store_order [of locals0 rt "decoded_all 24 es"]
  by (simp add: decoded_locals_def locals0_def slice_ok_nil order_of_def slice_elems_nil)

lemma decoded_locals_dom:
  "dom (mapLabelValue (decoded_locals rt es)) = entry_key rt ` set es"
  by (simp add: decoded_locals_def foldl_store_dom locals0_def)

lemma decoded_locals_last:
  "entry_key rt e \<notin> entry_key rt ` set ys \<Longrightarrow>
   map_option clear_offsets (mapLabelValue (decoded_locals rt (xs @ e # ys)) (entry_key rt e))
   = Some (clear_offsets e)"
  unfolding decoded_locals_def by (rule foldl_store_last)

lemma length_unit_bytes:
  "length (concat (map (\<lambda>r. [f r, g r]) us)) = 2 * length us"
  by (induction us) simp_all

lemma length_EncodeUTF16:
  "length (EncodeUTF16 s) = 2 * length (utf16_Encode (runes_of_string s))"
  unfolding EncodeUTF16_def by (rule length_unit_bytes)

lemma wf_entry_NewLabelValue:
  assumes "length label < 2 ^ 32" "length (EncodeUTF16 val) < 2 ^ 32" "extra = []"
  shows "wf_entry (NewLabelValue label val extra)"
proof -
  have "even (length (EncodeUTF16 val))"
    by (simp add: length_EncodeUTF16)
  then show ?thesis using assms
    by (simp add: wf_entry_def wf_label_def wf_value_def NewLabelValue_def
        NewLabelValueWithOffset_def Label_Write_def Value_Write_def complement_def Let_def)
qed

text \<open>
  Claim C8 (the bound of 20000 entries).  A stream made of a header and of \<open>n\<close>
  well-formed label/value records is opened without error when \<open>n \<le> 20000\<close>, and
  \<^verbatim>\<open>Open\<close> returns the error "too many strings" when \<open>n\<close> is 20001 or more.
\<close>

theorem decode_limit:
  assumes "wf_header ver nl ns un lang" "list_all wf_entry es"
  shows "snd (Open rt (csf_stream ver nl ns un lang es))
         = (if length es \<le> 20000 then None else Some TooManyStrings)"
proof (cases "length es \<le> 20000")
  case True
  from Open_ok [OF assms True, of rt] True show ?thesis by auto
next
  case False
  then have "20000 < length es" by simp
  from Open_too_many [OF assms this, of rt] False show ?thesis by simp
qed

lemma wf_ex_A: "wf_entry ex_A"
  unfolding ex_A_def
  by (rule wf_entry_NewLabelValue) (simp_all add: csf_eval)

theorem decode_limit_witness:
  "snd (Open example_runtime (csf_stream 3 20000 20000 0 0 (replicate 20000 ex_A))) = None
   \<and> snd (Open example_runtime (csf_stream 3 20001 20001 0 0 (replicate 20001 ex_A)))
       = Some TooManyStrings"
proof -
  have h: "wf_header 3 20000 20000 0 0" "wf_header 3 20001 20001 0 0"
    by (simp_all add: wf_header_def)
  have w: "list_all wf_entry (replicate 20000 ex_A)" "list_all wf_entry (replicate 20001 ex_A)"
    by (simp_all add: list_all_iff wf_ex_A)
  show ?thesis
    using decode_limit [OF h(1) w(1), of example_runtime]
      decode_limit [OF h(2) w(2), of example_runtime]
    by simp
qed

lemma LabelValue_Bytes_clear:
  "clear_offsets d = clear_offsets e \<Longrightarrow> LabelValue_Bytes d = LabelValue_Bytes e"
proof -
  assume a: "clear_offsets d = clear_offsets e"
  have "LabelValue_Bytes x = LabelValue_Bytes (clear_offsets x)" for x
    by (simp add: LabelValue_Bytes_def Label_Bytes_def Value_Bytes_def clear_offsets_def)
  then show ?thesis using a by metis
qed

lemma LabelValue_Bytes_wire:
  "StringPairs (lvLabel e) = 1 \<Longrightarrow> LabelValue_Bytes e = wire_entry e"
  by (simp add: LabelValue_Bytes_def Label_Bytes_def wire_entry_def wire_label_def)

lemma decoded_locals_lookup:
  assumes "distinct (map (entry_key rt) es)" "e \<in> set es"
  shows "map_option clear_offsets (mapLabelValue (decoded_locals rt es) (entry_key rt e))
         = Some (clear_offsets e)"
proof -
  from assms(2) obtain xs ys where s: "es = xs @ e # ys" by (auto simp: in_set_conv_decomp)
  with assms(1) have "entry_key rt e \<notin> entry_key rt ` set ys" by auto
  then show ?thesis unfolding s by (rule decoded_locals_last)
qed

lemma Save_decoded:
  assumes d: "distinct (map (entry_key rt) es)"
    and p: "list_all (\<lambda>e. StringPairs (lvLabel e) = 1) es"
    and r: "Version r = ver" "NumLabels r = nl" "NumStrings r = ns" "Unused r = un"
      "Language r = lang" "Values r = mapLabelValue (decoded_locals rt es)"
      "Order r = listOrder (decoded_locals rt es)" "mem r = lmem (decoded_locals rt es)"
  shows "Save r = csf_stream ver nl ns un lang es"
proof -
  have o: "Order_list r = map (entry_key rt) es"
    using decoded_locals_order [of rt es] d r(7,8)
    by (simp add: Order_list_def order_of_def new_keys_distinct)
  have "LabelValue_Bytes (case Values r (entry_key rt e) of None \<Rightarrow> zero_LabelValue
                            | Some lv \<Rightarrow> lv) = wire_entry e" if "e \<in> set es" for e
  proof -
    from decoded_locals_lookup [OF d that] obtain lv where
      lv: "Values r (entry_key rt e) = Some lv" "clear_offsets lv = clear_offsets e"
      by (auto simp: r(6))
    from p that have "StringPairs (lvLabel e) = 1" by (simp add: list_all_iff)
    then show ?thesis
      using lv LabelValue_Bytes_clear [of lv e] by (simp add: LabelValue_Bytes_wire)
  qed
  then have m: "map (\<lambda>e. LabelValue_Bytes (case Values r (entry_key rt e) of
                      None \<Rightarrow> zero_LabelValue | Some lv \<Rightarrow> lv)) es
             = map wire_entry es"
    by (simp add: map_eq_conv)
  show ?thesis
    by (simp add: Save_def o csf_stream_def wire_header_def r(1-5) o_def m)
qed

text \<open>
  Claim C1 (decoding then saving gives the bytes back), as amended.  Take a stream made
  of a header with 32-bit scalars and of at most 20000 well-formed records whose names
  are pairwise distinct after upper-casing and whose \<open>pairCount\<close> field is 1.  Then
  \<^verbatim>\<open>Open\<close> succeeds, and \<^verbatim>\<open>Save\<close> on the table it returns, with nothing changed, writes
  exactly the bytes of the stream.
\<close>

theorem save_after_open:
  assumes "wf_header ver nl ns un lang" "list_all wf_entry es" "length es \<le> 20000"
    and "distinct (map (entry_key rt) es)"
    and "list_all (\<lambda>e. StringPairs (lvLabel e) = 1) es"
  shows "snd (Open rt (csf_stream ver nl ns un lang es)) = None
         \<and> Save (fst (Open rt (csf_stream ver nl ns un lang es)))
             = csf_stream ver nl ns un lang es"
proof -
  from Open_ok [OF assms(1-3), of rt] obtain r where
    o: "Open rt (csf_stream ver nl ns un lang es) = (r, None)"
    and r: "Version r = ver" "NumLabels r = nl" "NumStrings r = ns" "Unused r = un"
      "Language r = lang" "Values r = mapLabelValue (decoded_locals rt es)"
      "Order r = listOrder (decoded_locals rt es)" "mem r = lmem (decoded_locals rt es)"
    by blast
  from Save_decoded [OF assms(4,5) r] o show ?thesis by simp
qed

lemma wf_ex_B: "wf_entry ex_B"
  unfolding ex_B_def
  by (rule wf_entry_NewLabelValue) (simp_all add: csf_eval)

theorem save_after_open_witness:
  "snd (Open example_runtime (csf_stream 3 2 2 0 0 [ex_A, ex_B])) = None
   \<and> Save (fst (Open example_runtime (csf_stream 3 2 2 0 0 [ex_A, ex_B])))
       = csf_stream 3 2 2 0 0 [ex_A, ex_B]"
proof -
  have h: "wf_header 3 2 2 0 0" by (simp add: wf_header_def)
  have w: "list_all wf_entry [ex_A, ex_B]" by (simp add: wf_ex_A wf_ex_B)
  have n: "length [ex_A, ex_B] \<le> 20000" by simp
  have d: "distinct (map (entry_key example_runtime) [ex_A, ex_B])"
    by (simp add: entry_key_def ex_A_def ex_B_def csf_eval)
  have p: "list_all (\<lambda>e. StringPairs (lvLabel e) = 1) [ex_A, ex_B]"
    by (simp add: ex_A_def ex_B_def csf_eval)
  show ?thesis by (rule save_after_open [OF h w n d p])
qed

lemma wf_ex_pairs2: "wf_entry ex_pairs2"
  using wf_ex_A by (simp add: ex_pairs2_def wf_entry_def wf_label_def)

text \<open>
  Claim C1 as stated fails on a stream whose single label record carries the
  \<open>pairCount\<close> 2: the stream is decoded without error, and \<^verbatim>\<open>Save\<close> writes the count 1
  in its place, so the bytes differ.
\<close>

theorem save_after_open_pairs2:
  "wf_header 3 1 1 0 0 \<and> list_all wf_entry [ex_pairs2]
   \<and> snd (Open example_runtime (csf_stream 3 1 1 0 0 [ex_pairs2])) = None
   \<and> Save (fst (Open example_runtime (csf_stream 3 1 1 0 0 [ex_pairs2])))
       \<noteq> csf_stream 3 1 1 0 0 [ex_pairs2]"
proof -
  have h: "wf_header 3 1 1 0 0" by (simp add: wf_header_def)
  have w: "list_all wf_entry [ex_pairs2]" by (simp add: wf_ex_pairs2)
  have n: "length [ex_pairs2] \<le> 20000" by simp
  from Open_ok [OF h w n, of example_runtime] obtain r where
    o: "Open example_runtime (csf_stream 3 1 1 0 0 [ex_pairs2]) = (r, None)"
    and r: "Version r = 3" "NumLabels r = 1" "NumStrings r = 1" "Unused r = 0"
      "Language r = 0" "Values r = mapLabelValue (decoded_locals example_runtime [ex_pairs2])"
      "Order r = listOrder (decoded_locals example_runtime [ex_pairs2])"
      "mem r = lmem (decoded_locals example_runtime [ex_pairs2])"
    by blast
  have k: "entry_key example_runtime ex_pairs2 = entry_key example_runtime ex_A"
    by (simp add: entry_key_def ex_pairs2_def Label_ValueString_def)
  have d: "distinct (map (entry_key example_runtime) [ex_A])" by simp
  have p: "list_all (\<lambda>e. StringPairs (lvLabel e) = 1) [ex_A]"
    by (simp add: ex_A_def csf_eval)
  have "LabelValue_Bytes ex_pairs2 = LabelValue_Bytes ex_A"
    by (simp add: LabelValue_Bytes_def Label_Bytes_def ex_pairs2_def)
  also have "\<dots> = wire_entry ex_A"
    by (rule LabelValue_Bytes_wire) (simp add: ex_A_def csf_eval)
  finally have c: "clear_offsets x = clear_offsets ex_pairs2 \<Longrightarrow> LabelValue_Bytes x = wire_entry ex_A" for x
    using LabelValue_Bytes_clear [of x ex_pairs2] by simp
  have o1: "Order_list r = [entry_key example_runtime ex_pairs2]"
    using decoded_locals_order [of example_runtime "[ex_pairs2]"] r(7,8)
    by (simp add: Order_list_def order_of_def)
  from decoded_locals_lookup [of example_runtime "[ex_pairs2]" ex_pairs2] obtain lv where
    lv: "Values r (entry_key example_runtime ex_pairs2) = Some lv"
      "clear_offsets lv = clear_offsets ex_pairs2"
    by (auto simp: r(6))
  have s: "Save r = csf_stream 3 1 1 0 0 [ex_A]"
    using c [OF lv(2)] lv(1) by (simp add: Save_def o1 csf_stream_def wire_header_def r(1-5))
  have ne: "wire_entry ex_A \<noteq> wire_entry ex_pairs2"
    by (simp add: wire_entry_def wire_label_def ex_pairs2_def ex_A_def csf_eval PutUint32_def)
  show ?thesis using h w o s ne by (simp add: csf_stream_def)
qed

lemma new_keys_one_repeat:
  assumes "distinct (xs @ k # ys @ zs)"
  shows "new_keys {} (xs @ k # ys @ k # zs) = xs @ k # ys @ zs"
proof -
  have 1: "new_keys {} (xs @ k # ys) = xs @ k # ys"
    using assms by (intro new_keys_distinct) auto
  have 2: "new_keys ({} \<union> set (xs @ k # ys)) [k] = []"
    by (rule new_keys_seen) simp
  have 3: "new_keys ({} \<union> set (xs @ k # ys) \<union> set [k]) zs = zs"
    using assms by (intro new_keys_distinct) auto
  have "new_keys {} ((xs @ k # ys) @ ([k] @ zs))
        = new_keys {} (xs @ k # ys) @ new_keys ({} \<union> set (xs @ k # ys)) ([k] @ zs)"
    by (rule new_keys_append)
  also have "new_keys ({} \<union> set (xs @ k # ys)) ([k] @ zs)
        = new_keys ({} \<union> set (xs @ k # ys)) [k]
          @ new_keys ({} \<union> set (xs @ k # ys) \<union> set [k]) zs"
    by (rule new_keys_append)
  finally have "new_keys {} ((xs @ k # ys) @ ([k] @ zs)) = (xs @ k # ys) @ [] @ zs"
    by (simp only: 1 2 3)
  then show ?thesis by simp
qed

text \<open>
  Claim C5 (two records with the same name).  In a stream of well-formed records in
  which the records \<open>e1\<close> and, later, \<open>e2\<close> have the same upper-case name and every
  other name is different, decoding succeeds; the order list has the name once, at the
  place of \<open>e1\<close>; the key set of \<open>Values\<close> is the set of the names in the order list;
  and the entry stored under the name is the second record \<open>e2\<close> (its label bytes,
  its value bytes and its extra value; the offsets are those of where it was read).
\<close>

theorem duplicate_label_decoding:
  assumes "wf_header ver nl ns un lang"
    and "list_all wf_entry (xs @ e1 # ys @ e2 # zs)"
    and "length (xs @ e1 # ys @ e2 # zs) \<le> 20000"
    and "entry_key rt e2 = entry_key rt e1"
    and "distinct (map (entry_key rt) (xs @ e1 # ys @ zs))"
  shows "snd (Open rt (csf_stream ver nl ns un lang (xs @ e1 # ys @ e2 # zs))) = None
         \<and> Order_list (fst (Open rt (csf_stream ver nl ns un lang (xs @ e1 # ys @ e2 # zs))))
             = map (entry_key rt) (xs @ e1 # ys @ zs)
         \<and> dom (Values (fst (Open rt (csf_stream ver nl ns un lang (xs @ e1 # ys @ e2 # zs)))))
             = set (map (entry_key rt) (xs @ e1 # ys @ zs))
         \<and> map_option clear_offsets
              (Values (fst (Open rt (csf_stream ver nl ns un lang (xs @ e1 # ys @ e2 # zs))))
                 (entry_key rt e1))
             = Some (clear_offsets e2)"
proof -
  let ?es = "xs @ e1 # ys @ e2 # zs"
  from Open_ok [OF assms(1-3), of rt] obtain r where
    o: "Open rt (csf_stream ver nl ns un lang ?es) = (r, None)"
    and r: "Values r = mapLabelValue (decoded_locals rt ?es)"
      "Order r = listOrder (decoded_locals rt ?es)" "mem r = lmem (decoded_locals rt ?es)"
    by blast
  have d: "distinct (map (entry_key rt) xs @ entry_key rt e1 # map (entry_key rt) ys
                     @ map (entry_key rt) zs)"
    using assms(5) by simp
  have ord: "Order_list r = map (entry_key rt) (xs @ e1 # ys @ zs)"
    using decoded_locals_order [of rt ?es] new_keys_one_repeat [OF d] r(2,3) assms(4)
    by (simp add: Order_list_def order_of_def)
  have dm: "dom (Values r) = set (map (entry_key rt) (xs @ e1 # ys @ zs))"
    using assms(4) by (auto simp: r(1) decoded_locals_dom)
  have "entry_key rt e2 \<notin> entry_key rt ` set zs"
    using assms(4,5) by auto
  from decoded_locals_last [OF this, of "xs @ e1 # ys"]
  have v: "map_option clear_offsets (Values r (entry_key rt e1)) = Some (clear_offsets e2)"
    using assms(4) by (simp add: r(1))
  show ?thesis using o ord dm v by simp
qed

lemma wf_ex_Foo: "wf_entry ex_Foo1" "wf_entry ex_Foo2"
  unfolding ex_Foo1_def ex_Foo2_def
  by (rule wf_entry_NewLabelValue; simp add: csf_eval)+

theorem duplicate_label_decoding_witness:
  "snd (Open example_runtime (csf_stream 3 2 2 0 0 [ex_Foo1, ex_Foo2])) = None
   \<and> Order_list (fst (Open example_runtime (csf_stream 3 2 2 0 0 [ex_Foo1, ex_Foo2])))
       = [bytes_of ''TXT:FOO'']
   \<and> dom (Values (fst (Open example_runtime (csf_stream 3 2 2 0 0 [ex_Foo1, ex_Foo2]))))
       = {bytes_of ''TXT:FOO''}
   \<and> map_option clear_offsets
        (Values (fst (Open example_runtime (csf_stream 3 2 2 0 0 [ex_Foo1, ex_Foo2])))
           (bytes_of ''TXT:FOO''))
       = Some (clear_offsets ex_Foo2)"
proof -
  have h: "wf_header 3 2 2 0 0" by (simp add: wf_header_def)
  have w: "list_all wf_entry ([] @ ex_Foo1 # [] @ ex_Foo2 # [])" by (simp add: wf_ex_Foo)
  have n: "length ([] @ ex_Foo1 # [] @ ex_Foo2 # []) \<le> 20000" by simp
  have k1: "entry_key example_runtime ex_Foo1 = bytes_of ''TXT:FOO''"
    by (simp add: entry_key_def ex_Foo1_def csf_eval)
  have k2: "entry_key example_runtime ex_Foo2 = bytes_of ''TXT:FOO''"
    by (simp add: entry_key_def ex_Foo2_def csf_eval)
  have k: "entry_key example_runtime ex_Foo2 = entry_key example_runtime ex_Foo1"
    by (simp add: k1 k2)
  have d: "distinct (map (entry_key example_runtime) ([] @ ex_Foo1 # [] @ []))" by simp
  show ?thesis
    using duplicate_label_decoding [OF h w n k d] by (simp add: k1)
qed

lemma framed_refl [simp]: "framed r r"
  by (simp add: framed_def)

lemma framed_trans: "framed r r1 \<Longrightarrow> framed r1 r2 \<Longrightarrow> framed r r2"
  by (simp add: framed_def)

lemma file_Read_framed: "framed r (snd (file_Read r n))"
  by (simp add: file_Read_def framed_def Let_def)

lemma file_Read_length: "file_Read r n = (Inr b, r') \<Longrightarrow> length b \<le> n"
  by (auto simp: file_Read_def Let_def split: if_splits)

lemma file_Read_bytes:
  "file_Read r n = (Inr b, r') \<Longrightarrow> b = take n (drop (fpos r) (fdata r))"
  by (auto simp: file_Read_def Let_def split: if_splits)

lemma read_framed: "framed r (snd (read r n))"
  using file_Read_framed [of r n]
  by (auto simp: read_def split: prod.splits sum.splits)

lemma readDWORD_framed: "framed r (snd (readDWORD r))"
proof (cases "file_Read r (length (dword r))")
  case (Pair x r')
  with file_Read_framed [of r "length (dword r)"] have f: "framed r r'" by simp
  show ?thesis
  proof (cases x)
    case (Inl e)
    with Pair f show ?thesis by (simp add: readDWORD_def)
  next
    case (Inr b)
    with Pair have "length b \<le> length (dword r)" using file_Read_length by blast
    with Pair Inr f show ?thesis
      by (auto simp: readDWORD_def framed_def Let_def)
  qed
qed

lemma readUInt_framed: "framed r (snd (readUInt r))"
  using readDWORD_framed [of r]
  by (auto simp: readUInt_def split: prod.splits sum.splits)

lemma checkIdentifier_framed: "framed r (snd (checkIdentifier r ids))"
  using readDWORD_framed [of r]
  by (auto simp: checkIdentifier_def split: prod.splits sum.splits)

lemma readDWORD_error:
  "readDWORD r = (Inl e, r') \<Longrightarrow> e = EOF \<or> e = NotADword"
  by (auto simp: readDWORD_def file_Read_def Let_def split: if_splits)

lemma readDWORD_value:
  assumes "readDWORD r = (Inr d, r')" "length (dword r) = 4"
  shows "dword r' = take 4 (drop (fpos r) (fdata r)) \<and> length (dword r') = 4"
proof -
  obtain x r0 where p: "file_Read r (length (dword r)) = (x, r0)"
    by (cases "file_Read r (length (dword r))") auto
  with assms(1) obtain b where x: "x = Inr b" and l: "length b = 4"
    by (cases x) (auto simp: readDWORD_def Let_def split: if_splits)
  from p x assms(2) have b: "b = take 4 (drop (fpos r) (fdata r))"
    using file_Read_bytes by metis
  from file_Read_framed [of r "length (dword r)"] p assms(2)
  have "length (dword r0) = 4" by (simp add: framed_def)
  with assms(1) p x l b show ?thesis
    by (auto simp: readDWORD_def Let_def)
qed

lemma readUInt_error: "readUInt r = (Inl e, r') \<Longrightarrow> e = EOF \<or> e = NotADword"
  using readDWORD_error
  by (auto simp: readUInt_def split: prod.splits sum.splits)

lemma read_error:
  "read r n = (Inl e, r') \<Longrightarrow> e = EOF \<or> (\<exists>a b. e = NotEnoughData a b)"
  by (auto simp: read_def file_Read_def Let_def split: if_splits)

lemma checkIdentifier_error:
  assumes "checkIdentifier r ids = (Some e, r')" "length (dword r) = 4"
  shows "e = EOF \<or> e = NotADword
         \<or> (e = NotValidIdentifier ids (take 4 (drop (fpos r) (fdata r)))
            \<and> take 4 (drop (fpos r) (fdata r)) \<notin> set ids)"
proof (cases "readDWORD r")
  case (Pair x r0)
  show ?thesis
  proof (cases x)
    case (Inl e0)
    with Pair assms(1) readDWORD_error [of r e0 r0] show ?thesis
      by (auto simp: checkIdentifier_def)
  next
    case (Inr d)
    with Pair readDWORD_value [of r d r0] assms(2)
    have "dword r0 = take 4 (drop (fpos r) (fdata r))" by simp
    with Pair Inr assms(1) show ?thesis
      by (auto simp: checkIdentifier_def split: if_splits)
  qed
qed

lemma readLabel_framed: "framed r (snd (readLabel r))"
proof -
  obtain e0 r0 where c0: "checkIdentifier r [LabelIdentifier] = (e0, r0)"
    by (cases "checkIdentifier r [LabelIdentifier]") auto
  obtain x1 r1 where c1: "readUInt r0 = (x1, r1)" by (cases "readUInt r0") auto
  obtain x2 r2 where c2: "readUInt r1 = (x2, r2)" by (cases "readUInt r1") auto
  have f0: "framed r r0" using checkIdentifier_framed [of r "[LabelIdentifier]"] c0 by simp
  have f1: "framed r r1" using readUInt_framed [of r0] c1 f0 by (auto intro: framed_trans)
  have f2: "framed r r2" using readUInt_framed [of r1] c2 f1 by (auto intro: framed_trans)
  have f3: "framed r (snd (read r2 n))" for n
    using read_framed [of r2 n] f2 by (auto intro: framed_trans)
  show ?thesis
    using c0 c1 c2 f0 f1 f2 f3
    by (auto simp: readLabel_def Let_def split: prod.splits option.splits sum.splits)
       (metis snd_conv)+
qed

lemma readLabel_format:
  assumes "readLabel r = (Inl (Wrapped msg (NotValidIdentifier ids got) off), r')"
    and "length (dword r) = 4"
  shows "ids = [LabelIdentifier] \<and> off = fpos r
         \<and> got = take 4 (drop (fpos r) (fdata r)) \<and> got \<notin> set ids"
  using assms
  by (auto simp: readLabel_def Let_def pos_def
      split: prod.splits option.splits sum.splits
      dest: readUInt_error read_error checkIdentifier_error)

lemma readValue_framed: "framed r (snd (readValue r))"
proof -
  let ?ids = "[ValueIdentifier, ValueWithExtraIdentifier]"
  obtain e0 r0 where c0: "checkIdentifier r ?ids = (e0, r0)"
    by (cases "checkIdentifier r ?ids") auto
  obtain x1 r1 where c1: "readUInt r0 = (x1, r1)" by (cases "readUInt r0") auto
  have f0: "framed r r0" using checkIdentifier_framed [of r ?ids] c0 by simp
  have f1: "framed r r1" using readUInt_framed [of r0] c1 f0 by (auto intro: framed_trans)
  have f2: "framed r (snd (read r1 n))" for n
    using read_framed [of r1 n] f1 by (auto intro: framed_trans)
  have f3: "framed r (snd (readUInt (snd (read r1 n))))" for n
    using readUInt_framed [of "snd (read r1 n)"] f2 [of n] by (auto intro: framed_trans)
  have f4: "framed r (snd (read (snd (readUInt (snd (read r1 n)))) m))" for n m
    using read_framed [of "snd (readUInt (snd (read r1 n)))" m] f3 [of n]
    by (auto intro: framed_trans)
  show ?thesis
  proof (cases e0)
    case (Some e)
    with c0 f0 show ?thesis by (simp add: readValue_def Let_def)
  next
    case None
    show ?thesis
    proof (cases x1)
      case (Inl e)
      with None c0 c1 f1 show ?thesis by (simp add: readValue_def Let_def)
    next
      case (Inr len)
      obtain x2 r2 where c2: "read r1 (len * 2) = (x2, r2)" by (cases "read r1 (len * 2)") auto
      show ?thesis
      proof (cases x2)
        case (Inl e)
        with None Inr c0 c1 c2 f2 [of "len * 2"] show ?thesis
          by (simp add: readValue_def Let_def)
      next
        case val: (Inr val)
        obtain x3 r3 where c3: "readUInt r2 = (x3, r3)" by (cases "readUInt r2") auto
        have r3: "framed r r3" using f3 [of "len * 2"] c2 c3 by simp
        have r4: "framed r (snd (read r3 m))" for m
          using f4 [of "len * 2" m] c2 c3 by simp
        from None Inr val c0 c1 c2 c3 r3 r4 f2 [of "len * 2"] show ?thesis
          by (auto simp: readValue_def Let_def split: prod.splits sum.splits)
             (metis snd_conv)+
      qed
    qed
  qed
qed

lemma readValue_format:
  assumes "readValue r = (Inl (Wrapped msg (NotValidIdentifier ids got) off), r')"
    and "length (dword r) = 4"
  shows "ids = [ValueIdentifier, ValueWithExtraIdentifier] \<and> off = fpos r
         \<and> got = take 4 (drop (fpos r) (fdata r)) \<and> got \<notin> set ids"
  using assms
  by (auto simp: readValue_def Let_def pos_def
      split: prod.splits option.splits sum.splits if_splits
      dest: readUInt_error read_error checkIdentifier_error)

lemma loop_framed: "framed r (snd (readContent_loop rt r l))"
proof (induction rt r l rule: readContent_loop.induct)
  case (1 rt r l)
  obtain x r1 where c1: "readLabel r = (x, r1)" by (cases "readLabel r") auto
  have f1: "framed r r1" using readLabel_framed [of r] c1 by simp
  show ?case
  proof (cases x)
    case (Inl e)
    with c1 f1 show ?thesis by (subst readContent_loop.simps) simp
  next
    case (Inr label)
    obtain y r2 where c2: "readValue r1 = (y, r2)" by (cases "readValue r1") auto
    have f2: "framed r r2" using readValue_framed [of r1] c2 f1 by (auto intro: framed_trans)
    show ?thesis
    proof (cases y)
      case (Inl e)
      with Inr c1 c2 f2 show ?thesis by (subst readContent_loop.simps) simp
    next
      case val: (Inr val)
      let ?l = "(readContent_store rt l label val)\<lparr>counter := counter l + 1\<rparr>"
      show ?thesis
      proof (cases "20000 < counter ?l")
        case True
        with Inr val c1 c2 f2 show ?thesis
          by (subst readContent_loop.simps) (simp add: Let_def)
      next
        case False
        from "1.IH" [OF c1 [symmetric] Inr c2 [symmetric] val refl False]
        have "framed r2 (snd (readContent_loop rt r2 ?l))" .
        with f2 have "framed r (snd (readContent_loop rt r2 ?l))" by (rule framed_trans)
        with Inr val c1 c2 False show ?thesis
          by (subst readContent_loop.simps) (simp add: Let_def)
      qed
    qed
  qed
qed

lemma loop_format:
  "length (dword r) = 4 \<Longrightarrow>
   readContent_loop rt r l = (Inl (Wrapped msg (NotValidIdentifier ids got) off), r') \<Longrightarrow>
   (ids = [LabelIdentifier] \<or> ids = [ValueIdentifier, ValueWithExtraIdentifier])
   \<and> got = take 4 (drop off (fdata r)) \<and> got \<notin> set ids"
proof (induction rt r l rule: readContent_loop.induct)
  case (1 rt r l)
  note d = "1.prems"(1) and res = "1.prems"(2)
  obtain x r1 where c1: "readLabel r = (x, r1)" by (cases "readLabel r") auto
  have f1: "framed r r1" using readLabel_framed [of r] c1 by simp
  show ?case
  proof (cases x)
    case (Inl e)
    with c1 res have "readLabel r = (Inl (Wrapped msg (NotValidIdentifier ids got) off), r1)"
      by (subst (asm) readContent_loop.simps) (auto split: if_splits)
    from readLabel_format [OF this d] show ?thesis by auto
  next
    case (Inr label)
    obtain y r2 where c2: "readValue r1 = (y, r2)" by (cases "readValue r1") auto
    have f2: "framed r1 r2" using readValue_framed [of r1] c2 by simp
    have d1: "length (dword r1) = 4" "fdata r1 = fdata r" using f1 d by (simp_all add: framed_def)
    have d2: "length (dword r2) = 4" "fdata r2 = fdata r" using f2 d1 by (simp_all add: framed_def)
    show ?thesis
    proof (cases y)
      case (Inl e)
      with Inr c1 c2 res
      have "readValue r1 = (Inl (Wrapped msg (NotValidIdentifier ids got) off), r2)"
        by (subst (asm) readContent_loop.simps) (auto split: if_splits)
      from readValue_format [OF this d1(1)] d1(2) show ?thesis by auto
    next
      case val: (Inr val)
      let ?l = "(readContent_store rt l label val)\<lparr>counter := counter l + 1\<rparr>"
      show ?thesis
      proof (cases "20000 < counter ?l")
        case True
        with Inr val c1 c2 res show ?thesis
          by (subst (asm) readContent_loop.simps) (simp add: Let_def)
      next
        case False
        with Inr val c1 c2 res
        have "readContent_loop rt r2 ?l = (Inl (Wrapped msg (NotValidIdentifier ids got) off), r')"
          by (subst (asm) readContent_loop.simps) (simp add: Let_def)
        from "1.IH" [OF c1 [symmetric] Inr c2 [symmetric] val refl False d2(1) this] d2(2)
        show ?thesis by auto
      qed
    qed
  qed
qed

lemma readUInt_frD:
  "readUInt a = (x, b) \<Longrightarrow>
   fdata b = fdata a \<and> length (dword b) = length (dword a) \<and> Values b = Values a
   \<and> Categories b = Categories a \<and> Order b = Order a \<and> mem b = mem a"
  using readUInt_framed [of a] by (simp add: framed_def)

lemma checkIdentifier_frD:
  "checkIdentifier a ids = (x, b) \<Longrightarrow>
   fdata b = fdata a \<and> length (dword b) = length (dword a) \<and> Values b = Values a
   \<and> Categories b = Categories a \<and> Order b = Order a \<and> mem b = mem a"
  using checkIdentifier_framed [of a ids] by (simp add: framed_def)

lemma readHeader_framed: "framed r (snd (readHeader r))"
  by (auto simp: readHeader_def framed_def split: prod.splits option.splits sum.splits
      dest!: readUInt_frD checkIdentifier_frD)

lemma readHeader_format:
  assumes "readHeader r = (Some (Wrapped msg (NotValidIdentifier ids got) off), r')"
    and "length (dword r) = 4"
  shows "ids = [CSFFileIdentifier] \<and> off = fpos r' \<and> fpos r' = fpos r + 4
         \<and> got = take 4 (drop (fpos r) (fdata r)) \<and> got \<notin> set ids"
proof -
  obtain e0 r0 where c0: "checkIdentifier r [CSFFileIdentifier] = (e0, r0)"
    by (cases "checkIdentifier r [CSFFileIdentifier]") auto
  show ?thesis
  proof (cases e0)
    case None
    with c0 assms(1) show ?thesis
      by (auto simp: readHeader_def split: prod.splits sum.splits dest: readUInt_error)
  next
    case (Some e)
    with c0 assms(1) have e: "e = NotValidIdentifier ids got" and r': "r' = r0"
      and off: "off = fpos r0"
      by (auto simp: readHeader_def pos_def)
    from checkIdentifier_error [OF c0 [unfolded Some] assms(2)] e
    have g: "ids = [CSFFileIdentifier]" "got = take 4 (drop (fpos r) (fdata r))"
      "got \<notin> set ids"
      by auto
    obtain x ra where rd: "readDWORD r = (x, ra)" by (cases "readDWORD r") auto
    with c0 Some e obtain d where x: "x = Inr d" and ra: "ra = r0"
      using readDWORD_error [of r _ ra]
      by (cases x) (auto simp: checkIdentifier_def split: if_splits)
    have "length (take 4 (drop (fpos r) (fdata r))) = 4"
      using readDWORD_value [OF rd [unfolded x] assms(2)] by metis
    then have "fpos ra = fpos r + 4"
      using rd x assms(2)
      by (auto simp: readDWORD_def file_Read_def Let_def split: if_splits)
    with g off r' ra show ?thesis by simp
  qed
qed

text \<open>
  Claim C10 (format errors).  When \<^verbatim>\<open>Open\<close> returns a format error, that is an
  invalid-identifier error wrapped with an offset, the handle returned with it has an
  empty entry mapping, an empty category index and an empty order list; the error
  holds the list of the identifiers that were expected and the four bytes found, which
  are not among them; and the offset is 4 (the position after the magic) when the file
  header was expected, and the position of the four offending bytes when a label or a
  value record was expected.
\<close>

theorem format_error_no_table:
  assumes "Open rt contents = (r, Some (Wrapped msg (NotValidIdentifier ids got) off))"
  shows "Values r = Map.empty \<and> Categories r = Map.empty \<and> Order_list r = []
         \<and> got \<notin> set ids
         \<and> ((ids = [CSFFileIdentifier] \<and> off = 4 \<and> got = take 4 contents)
            \<or> ((ids = [LabelIdentifier] \<or> ids = [ValueIdentifier, ValueWithExtraIdentifier])
               \<and> got = take 4 (drop off contents)))"
proof -
  let ?e = "Wrapped msg (NotValidIdentifier ids got) off"
  let ?r0 = "zero_CSFUtil\<lparr>fdata := contents, fpos := 0, dword := replicate 4 0\<rparr>"
  have z: "Values ?r0 = Map.empty" "Categories ?r0 = Map.empty" "Order ?r0 = nil_slice"
    "fdata ?r0 = contents" "length (dword ?r0) = 4" "fpos ?r0 = 0"
    by (simp_all add: zero_CSFUtil_def)
  obtain x r1 where h: "readHeader ?r0 = (x, r1)" by (cases "readHeader ?r0") auto
  have f1: "framed ?r0 r1" using readHeader_framed [of ?r0] h by simp
  from assms have o: "openAndParse rt zero_CSFUtil contents = (Some ?e, r)"
    by (auto simp: Open_def split: prod.splits)
  have fr: "framed ?r0 r \<and> got \<notin> set ids
         \<and> ((ids = [CSFFileIdentifier] \<and> off = 4 \<and> got = take 4 contents)
            \<or> ((ids = [LabelIdentifier] \<or> ids = [ValueIdentifier, ValueWithExtraIdentifier])
               \<and> got = take 4 (drop off contents)))"
  proof (cases x)
    case (Some e)
    with o h have e: "readHeader ?r0 = (Some ?e, r)"
      by (simp add: openAndParse_def Let_def)
    with h f1 have "framed ?r0 r" by simp
    with readHeader_format [OF e z(5)] z(4,6) show ?thesis by auto
  next
    case None
    with o h have rc: "readContent rt r1 = (Some ?e, r)"
      by (simp add: openAndParse_def Let_def)
    let ?l0 = "\<lparr>mapLabelValue = Map.empty, mapCate = Map.empty, listOrder = nil_slice,
                lmem = mem r1, counter = 0\<rparr>"
    from rc have lp: "readContent_loop rt r1 ?l0 = (Inl ?e, r)"
      by (auto simp: readContent_def split: prod.splits sum.splits)
    have d1: "length (dword r1) = 4" "fdata r1 = contents"
      using f1 z by (simp_all add: framed_def)
    have "framed r1 r" using loop_framed [of r1 rt ?l0] lp by simp
    with f1 have "framed ?r0 r" by (rule framed_trans)
    with loop_format [OF d1(1) lp] d1(2) show ?thesis by auto
  qed
  then have "Values r = Map.empty" "Categories r = Map.empty" "Order r = nil_slice"
    using z by (simp_all add: framed_def)
  with fr show ?thesis by (simp add: Order_list_def slice_elems_nil)
qed

lemma ex_bad_label_Open:
  "snd (Open example_runtime ex_bad_label)
   = Some (Wrapped ''not a valid label start''
             (NotValidIdentifier [LabelIdentifier] (bytes_of ''XLBL'')) 24)"
  by (simp add: ex_bad_label_def csf_stream_def wire_header_def csf_eval rd_eval)

theorem format_error_no_table_witness:
  "snd (Open example_runtime ex_bad_label)
     = Some (Wrapped ''not a valid label start''
               (NotValidIdentifier [LabelIdentifier] (bytes_of ''XLBL'')) 24)
   \<and> Values (fst (Open example_runtime ex_bad_label)) = Map.empty
   \<and> Categories (fst (Open example_runtime ex_bad_label)) = Map.empty
   \<and> Order_list (fst (Open example_runtime ex_bad_label)) = []
   \<and> bytes_of ''XLBL'' = take 4 (drop 24 ex_bad_label)"
proof -
  have o: "Open example_runtime ex_bad_label
           = (fst (Open example_runtime ex_bad_label),
              Some (Wrapped ''not a valid label start''
                      (NotValidIdentifier [LabelIdentifier] (bytes_of ''XLBL'')) 24))"
    using ex_bad_label_Open by (cases "Open example_runtime ex_bad_label") simp
  have "[LabelIdentifier] \<noteq> [CSFFileIdentifier]"
    by (simp add: LabelIdentifier_def CSFFileIdentifier_def bytes_of_def)
  with format_error_no_table [OF o] ex_bad_label_Open show ?thesis by simp
qed

end
